theory Spec2Isabelle
  imports Complex_Main
begin

section \<open>Python values, errors and the state-and-exception discipline\<close>

text \<open>
  Every \<^verbatim>\<open>raise\<close> of \<^verbatim>\<open>mpsim/core.py\<close> is a \<^verbatim>\<open>ValueError\<close>; the message is
  kept, without the interpolated numbers, to tell the raise sites apart.  The other
  exceptions are the ones Python itself raises on the paths the code can take.
\<close>

datatype error =
    ValueError string
  | IndexError
  | KeyError
  | AssertionError
  | TypeError
  | AttributeError

type_synonym ('s, 'a) se = "'s \<Rightarrow> (error + 'a) \<times> 's"

definition ret :: "'a \<Rightarrow> ('s, 'a) se" where
  "ret x = (\<lambda>s. (Inr x, s))"

definition throw :: "error \<Rightarrow> ('s, 'a) se" where
  "throw e = (\<lambda>s. (Inl e, s))"

definition bnd :: "('s, 'a) se \<Rightarrow> ('a \<Rightarrow> ('s, 'b) se) \<Rightarrow> ('s, 'b) se" where
  "bnd f g = (\<lambda>s. case f s of (Inl e, s') \<Rightarrow> (Inl e, s') | (Inr x, s') \<Rightarrow> g x s')"

text \<open>A pure computation that may raise, run inside a stateful one.\<close>

definition lift :: "error + 'a \<Rightarrow> ('s, 'a) se" where
  "lift r = (\<lambda>s. (r, s))"

text \<open>Python list indexing: negative indices count from the end, out of range raises.\<close>

definition py_get :: "'a list \<Rightarrow> int \<Rightarrow> error + 'a" where
  "py_get xs i =
     (if 0 \<le> i \<and> i < int (length xs) then Inr (xs ! nat i)
      else if i < 0 \<and> - int (length xs) \<le> i then Inr (xs ! nat (int (length xs) + i))
      else Inl IndexError)"

text \<open>\<^verbatim>\<open>range(n)\<close> for a Python integer \<open>n\<close>.\<close>

definition py_range :: "int \<Rightarrow> int list" where
  "py_range n = map int [0..<nat n]"

text \<open>\<^verbatim>\<open>str(n)\<close> for a Python integer.\<close>

fun str_nat :: "nat \<Rightarrow> string" where
  "str_nat n =
     (if n < 10 then [char_of (48 + n)]
      else str_nat (n div 10) @ [char_of (48 + n mod 10)])"

declare str_nat.simps [simp del]

definition str_int :: "int \<Rightarrow> string" where
  "str_int i = (if i < 0 then CHR ''-'' # str_nat (nat (- i)) else str_nat (nat i))"

section \<open>Dense tensors\<close>

text \<open>
  A numpy array is its shape and its entries, read by a multi-index.  Entries are exact
  complex numbers: the rounding of \<^verbatim>\<open>complex64\<close> arithmetic is not modelled.
\<close>

record tensor =
  shape :: "nat list"
  elem :: "nat list \<Rightarrow> complex"

definition rank :: "tensor \<Rightarrow> nat" where
  "rank t = length (shape t)"

text \<open>Row-major (C order) position of a multi-index, and back.\<close>

fun unravel :: "nat list \<Rightarrow> nat \<Rightarrow> nat list" where
  "unravel [] k = []"
| "unravel (d # ds) k = (k div prod_list ds) # unravel ds (k mod prod_list ds)"

fun ravel :: "nat list \<Rightarrow> nat list \<Rightarrow> nat" where
  "ravel (d # ds) (i # is) = i * prod_list ds + ravel ds is"
| "ravel _ _ = 0"

text \<open>All multi-indices of a shape, in row-major order.\<close>

fun all_indices :: "nat list \<Rightarrow> nat list list" where
  "all_indices [] = [[]]"
| "all_indices (d # ds) = concat (map (\<lambda>i. map ((#) i) (all_indices ds)) [0..<d])"

text \<open>
  The axes of a rank-\<open>r\<close> array that are not in \<open>axes\<close>, in increasing order, and the
  multi-index of the whole array that has \<open>ks\<close> at the positions \<open>axes\<close> and \<open>free\<close> at
  the others.
\<close>

definition free_axes :: "nat \<Rightarrow> nat list \<Rightarrow> nat list" where
  "free_axes r axes = filter (\<lambda>p. p \<notin> set axes) [0..<r]"

fun index_of :: "nat list \<Rightarrow> nat \<Rightarrow> nat" where
  "index_of [] p = 0"
| "index_of (a # as) p = (if a = p then 0 else Suc (index_of as p))"

definition scatter :: "nat \<Rightarrow> nat list \<Rightarrow> nat list \<Rightarrow> nat list \<Rightarrow> nat list" where
  "scatter r axes ks free =
     map (\<lambda>p. if p \<in> set axes then ks ! index_of axes p
               else free ! length (free_axes p axes)) [0..<r]"

text \<open>
  \<^verbatim>\<open>numpy.tensordot(a, b, [axes1, axes2])\<close>: the free axes of \<open>a\<close> in order, then those of
  \<open>b\<close>; the paired axes are summed.  TensorNetwork only pairs axes of equal dimension
  (\<open>connect\<close> below refuses anything else), so numpy's shape-mismatch error has no branch.
\<close>

definition tensordot :: "tensor \<Rightarrow> tensor \<Rightarrow> nat list \<Rightarrow> nat list \<Rightarrow> tensor" where
  "tensordot a b axes1 axes2 =
     (let fa = free_axes (rank a) axes1; fb = free_axes (rank b) axes2
      in \<lparr>shape = map ((!) (shape a)) fa @ map ((!) (shape b)) fb,
          elem = (\<lambda>idx.
            sum_list (map
              (\<lambda>ks. elem a (scatter (rank a) axes1 ks (take (length fa) idx))
                   * elem b (scatter (rank b) axes2 ks (drop (length fa) idx)))
              (all_indices (map ((!) (shape a)) axes1))))\<rparr>)"

text \<open>\<^verbatim>\<open>numpy.conj\<close>.\<close>

definition conj_tensor :: "tensor \<Rightarrow> tensor" where
  "conj_tensor t = t\<lparr>elem := (\<lambda>idx. cnj (elem t idx))\<rparr>"

text \<open>
  \<^verbatim>\<open>numpy.transpose(t, perm)\<close> followed by a reshape that merges the last
  \<open>length back\<close> axes into one: \<open>front\<close> and \<open>back\<close> list the original axes.
\<close>

definition merge_axes :: "tensor \<Rightarrow> nat list \<Rightarrow> nat list \<Rightarrow> tensor" where
  "merge_axes t front back =
     (let bd = map ((!) (shape t)) back
      in \<lparr>shape = map ((!) (shape t)) front @ [prod_list bd],
          elem = (\<lambda>idx. elem t (scatter (rank t) back (unravel bd (last idx)) (butlast idx)))\<rparr>)"

text \<open>The trace over the axis pairs \<open>axes1\<close>, \<open>axes2\<close> of one array.\<close>

definition trace_tensor :: "tensor \<Rightarrow> nat list \<Rightarrow> nat list \<Rightarrow> tensor" where
  "trace_tensor t axes1 axes2 =
     (let fa = free_axes (rank t) (axes1 @ axes2)
      in \<lparr>shape = map ((!) (shape t)) fa,
          elem = (\<lambda>idx.
            sum_list (map (\<lambda>ks. elem t (scatter (rank t) (axes1 @ axes2) (ks @ ks) idx))
              (all_indices (map ((!) (shape t)) axes1))))\<rparr>)"

section \<open>The TensorNetwork object graph\<close>

text \<open>
  \<^verbatim>\<open>tn.Node\<close> and \<^verbatim>\<open>tn.Edge\<close> are mutable objects that refer to each other, so they live
  in a store: a node is its address, and so is an edge.  An edge knows its two ends
  (\<open>node2 = None\<close> for a dangling edge); a node lists its edges by axis.
\<close>

record edge =
  node1 :: nat
  axis1 :: nat
  node2 :: "nat option"
  axis2 :: nat

record node =
  name :: string
  tensor :: tensor
  edges :: "nat list"

record network =
  net_nodes :: "nat \<Rightarrow> node"
  net_edges :: "nat \<Rightarrow> edge"
  next_node :: nat
  next_edge :: nat

definition is_dangling :: "network \<Rightarrow> nat \<Rightarrow> bool" where
  "is_dangling h e = (node2 (net_edges h e) = None)"

definition dimension :: "network \<Rightarrow> nat \<Rightarrow> nat" where
  "dimension h e =
     shape (tensor (net_nodes h (node1 (net_edges h e)))) ! axis1 (net_edges h e)"

text \<open>
  \<^verbatim>\<open>get_all_dangling\<close> and \<^verbatim>\<open>get_all_nondangling\<close> return sets of edges: the model keeps
  them as duplicate-free lists in axis order.
\<close>

definition get_all_dangling :: "network \<Rightarrow> nat \<Rightarrow> nat list" where
  "get_all_dangling h n = remdups (filter (is_dangling h) (edges (net_nodes h n)))"

definition get_all_nondangling :: "network \<Rightarrow> nat \<Rightarrow> nat list" where
  "get_all_nondangling h n =
     remdups (filter (\<lambda>e. \<not> is_dangling h e) (edges (net_nodes h n)))"

definition get_all_edges :: "network \<Rightarrow> nat \<Rightarrow> nat list" where
  "get_all_edges h n = remdups (edges (net_nodes h n))"

text \<open>\<^verbatim>\<open>node.get_edge(i)\<close>, also written \<^verbatim>\<open>node[i]\<close>.\<close>

definition get_edge :: "network \<Rightarrow> nat \<Rightarrow> nat \<Rightarrow> error + nat" where
  "get_edge h n i =
     (if i < length (edges (net_nodes h n)) then Inr (edges (net_nodes h n) ! i)
      else Inl (ValueError ''Axis must be positive and less than rank of the tensor''))"

text \<open>\<^verbatim>\<open>pop()\<close> on a set of edges; on a one-element set the result is determined.\<close>

definition pop :: "nat list \<Rightarrow> error + nat" where
  "pop es = (case es of [] \<Rightarrow> Inl KeyError | e # _ \<Rightarrow> Inr e)"

text \<open>The axis on which edge \<open>e\<close> meets node \<open>n\<close>.\<close>

definition axis_at :: "network \<Rightarrow> nat \<Rightarrow> nat \<Rightarrow> nat" where
  "axis_at h n e = (if node1 (net_edges h e) = n then axis1 (net_edges h e)
                    else axis2 (net_edges h e))"

text \<open>\<^verbatim>\<open>tn.Node(array, name=...)\<close>: a new node with one new dangling edge per axis.\<close>

definition dangling_edges ::
  "nat \<Rightarrow> nat \<Rightarrow> nat \<Rightarrow> (nat \<Rightarrow> edge) \<Rightarrow> (nat \<Rightarrow> edge)" where
  "dangling_edges n e0 k es =
     (\<lambda>e. if e0 \<le> e \<and> e < e0 + k
           then \<lparr>node1 = n, axis1 = e - e0, node2 = None, axis2 = 0\<rparr> else es e)"

definition Node :: "tensor \<Rightarrow> string \<Rightarrow> (network, nat) se" where
  "Node t nm = (\<lambda>h.
     let n = next_node h; e0 = next_edge h; k = rank t
     in (Inr n,
         h\<lparr>net_nodes := (net_nodes h)(n := \<lparr>name = nm, tensor = t,
                                            edges = map (\<lambda>i. e0 + i) [0..<k]\<rparr>),
           net_edges := dangling_edges n e0 k (net_edges h),
           next_node := Suc n,
           next_edge := e0 + k\<rparr>))"

text \<open>\<^verbatim>\<open>node.fresh_edges()\<close>: the node gets a new dangling edge on every axis.\<close>

definition fresh_edges :: "nat \<Rightarrow> network \<Rightarrow> network" where
  "fresh_edges n h =
     (let e0 = next_edge h; nd = net_nodes h n; k = length (edges nd)
      in h\<lparr>net_nodes := (net_nodes h)(n := nd\<lparr>edges := map (\<lambda>i. e0 + i) [0..<k]\<rparr>),
           net_edges := dangling_edges n e0 k (net_edges h),
           next_edge := e0 + k\<rparr>)"

text \<open>
  \<^verbatim>\<open>tn.connect(edge1, edge2)\<close>: both edges must be dangling, different and of the same
  dimension; a new edge replaces them on both nodes, with \<open>edge1\<close>'s node as \<open>node1\<close>.
\<close>

definition set_edge :: "nat \<Rightarrow> nat \<Rightarrow> nat \<Rightarrow> (nat \<Rightarrow> node) \<Rightarrow> (nat \<Rightarrow> node)" where
  "set_edge n ax e ns = ns(n := (ns n)\<lparr>edges := (edges (ns n))[ax := e]\<rparr>)"

definition connect :: "nat \<Rightarrow> nat \<Rightarrow> (network, nat) se" where
  "connect e1 e2 = (\<lambda>h.
     if \<not> is_dangling h e1 \<or> \<not> is_dangling h e2
     then (Inl (ValueError ''Edge is not a dangling edge.''), h)
     else if e1 = e2 then (Inl (ValueError ''Cannot connect edge to itself.''), h)
     else if dimension h e1 \<noteq> dimension h e2
     then (Inl (ValueError ''Cannot connect edges of unequal dimension.''), h)
     else
       let a = net_edges h e1; b = net_edges h e2; e = next_edge h
       in (Inr e,
           h\<lparr>net_nodes := set_edge (node1 b) (axis1 b) e
                            (set_edge (node1 a) (axis1 a) e (net_nodes h)),
             net_edges := (net_edges h)(e := \<lparr>node1 = node1 a, axis1 = axis1 a,
                                              node2 = Some (node1 b), axis2 = axis1 b\<rparr>),
             next_edge := Suc e\<rparr>))"

definition get_edge_of :: "nat \<Rightarrow> nat \<Rightarrow> (network, nat) se" where
  "get_edge_of n i = (\<lambda>h. (get_edge h n i, h))"

text \<open>Whether edge \<open>e\<close> runs between the nodes \<open>a\<close> and \<open>b\<close>.\<close>

definition joins :: "network \<Rightarrow> nat \<Rightarrow> nat \<Rightarrow> nat \<Rightarrow> bool" where
  "joins h e a b =
     ((node1 (net_edges h e) = a \<and> node2 (net_edges h e) = Some b) \<or>
      (node1 (net_edges h e) = b \<and> node2 (net_edges h e) = Some a))"

text \<open>\<^verbatim>\<open>tn.get_shared_edges(node1, node2)\<close>: the edges of \<open>node1\<close> whose ends are the two nodes.\<close>

definition get_shared_edges :: "network \<Rightarrow> nat \<Rightarrow> nat \<Rightarrow> nat list" where
  "get_shared_edges h a b = remdups (filter (\<lambda>e. joins h e a b) (edges (net_nodes h a)))"

text \<open>
  \<^verbatim>\<open>tn.reachable\<close> is a breadth-first search along edges.  Every round adds the nodes at
  the ends of the edges of the nodes seen so far; as many rounds as there are nodes in
  the store reach everything.
\<close>

definition neighbours :: "network \<Rightarrow> nat \<Rightarrow> nat list" where
  "neighbours h n =
     concat (map (\<lambda>e. node1 (net_edges h e) #
                       (case node2 (net_edges h e) of None \<Rightarrow> [] | Some m \<Rightarrow> [m]))
                 (edges (net_nodes h n)))"

fun reach :: "network \<Rightarrow> nat \<Rightarrow> nat list \<Rightarrow> nat list" where
  "reach h 0 seen = seen"
| "reach h (Suc k) seen = reach h k (remdups (seen @ concat (map (neighbours h) seen)))"

definition reachable :: "network \<Rightarrow> nat \<Rightarrow> nat list" where
  "reachable h n = reach h (next_node h) [n]"

text \<open>\<^verbatim>\<open>tn.check_connected((a, b))\<close> raises \<^verbatim>\<open>ValueError\<close> when this is false.\<close>

definition check_connected :: "network \<Rightarrow> nat \<Rightarrow> nat \<Rightarrow> bool" where
  "check_connected h a b = (b \<in> set (reachable h a))"

text \<open>
  \<^verbatim>\<open>edge.update_axis\<close>: the end of the edge that sat on \<open>old_node\<close> at \<open>old_axis\<close> moves
  to \<open>new_node\<close> at \<open>new_axis\<close>.  (TensorNetwork raises when neither end matches, which
  its own bookkeeping rules out.)
\<close>

definition update_axis ::
  "nat \<Rightarrow> nat \<Rightarrow> nat \<Rightarrow> nat \<Rightarrow> nat \<Rightarrow> (nat \<Rightarrow> edge) \<Rightarrow> (nat \<Rightarrow> edge)" where
  "update_axis e old_node old_axis new_node new_axis es =
     (if node1 (es e) = old_node \<and> axis1 (es e) = old_axis
      then es(e := (es e)\<lparr>node1 := new_node, axis1 := new_axis\<rparr>)
      else if node2 (es e) = Some old_node \<and> axis2 (es e) = old_axis
      then es(e := (es e)\<lparr>node2 := Some new_node, axis2 := new_axis\<rparr>)
      else es)"

text \<open>A list of (edge, old node, old axis) moves to consecutive axes of \<open>new_node\<close>.\<close>

fun move_edges ::
  "(nat \<times> nat \<times> nat) list \<Rightarrow> nat \<Rightarrow> nat \<Rightarrow> (nat \<Rightarrow> edge) \<Rightarrow> (nat \<Rightarrow> edge)" where
  "move_edges [] new j es = es"
| "move_edges ((e, n, ax) # r) new j es =
     move_edges r new (Suc j) (update_axis e n ax new j es)"

text \<open>The edges of node \<open>n\<close> that are not in \<open>gone\<close>, with their axes.\<close>

definition remaining :: "network \<Rightarrow> nat \<Rightarrow> nat list \<Rightarrow> (nat \<times> nat \<times> nat) list" where
  "remaining h n gone =
     map (\<lambda>p. (edges (net_nodes h n) ! p, n, p))
       (filter (\<lambda>p. edges (net_nodes h n) ! p \<notin> set gone)
          [0..<length (edges (net_nodes h n))])"

text \<open>
  A new node that takes over the edges \<open>r\<close>; the nodes in \<open>olds\<close>, whose edges they
  were, get fresh dangling edges (\<^verbatim>\<open>_remove_edges\<close>).
\<close>

definition replace_nodes ::
  "nat list \<Rightarrow> (nat \<times> nat \<times> nat) list \<Rightarrow> tensor \<Rightarrow> string \<Rightarrow> (network, nat) se" where
  "replace_nodes olds r t nm = (\<lambda>h.
     let h1 = fold fresh_edges olds h; new = next_node h1
     in (Inr new,
         h1\<lparr>net_nodes := (net_nodes h1)(new := \<lparr>name = nm, tensor = t, edges = map fst r\<rparr>),
            net_edges := move_edges r new 0 (net_edges h1),
            next_node := Suc new\<rparr>))"

text \<open>
  The contraction of the edges \<open>shared\<close> between two different nodes: \<^verbatim>\<open>tensordot\<close> over
  the axes of the shared edges; the remaining edges of \<open>n1\<close>, then those of \<open>n2\<close>, become
  the edges of the new node.
\<close>

definition contract_pair :: "nat \<Rightarrow> nat \<Rightarrow> nat list \<Rightarrow> string \<Rightarrow> (network, nat) se" where
  "contract_pair n1 n2 shared nm = (\<lambda>h.
     replace_nodes [n1, n2] (remaining h n1 shared @ remaining h n2 shared)
       (tensordot (tensor (net_nodes h n1)) (tensor (net_nodes h n2))
          (map (axis_at h n1) shared) (map (axis_at h n2) shared)) nm h)"

text \<open>The contraction of trace edges (both ends on the node \<open>n\<close>).\<close>

definition contract_trace :: "nat \<Rightarrow> nat list \<Rightarrow> string \<Rightarrow> (network, nat) se" where
  "contract_trace n es nm = (\<lambda>h.
     replace_nodes [n] (remaining h n es)
       (trace_tensor (tensor (net_nodes h n))
          (map (\<lambda>e. axis1 (net_edges h e)) es) (map (\<lambda>e. axis2 (net_edges h e)) es)) nm h)"

text \<open>\<^verbatim>\<open>tn.contract(edge, name=...)\<close>.\<close>

definition contract :: "nat \<Rightarrow> string \<Rightarrow> (network, nat) se" where
  "contract e nm = (\<lambda>h.
     case node2 (net_edges h e) of
       None \<Rightarrow> (Inl (ValueError ''Attempting to contract dangling edge''), h)
     | Some n2 \<Rightarrow>
         if node1 (net_edges h e) = n2 then contract_trace n2 [e] nm h
         else contract_pair (node1 (net_edges h e)) n2 [e] nm h)"

text \<open>\<^verbatim>\<open>tn.contract_between(node1, node2, name=...)\<close>.\<close>

definition contract_between :: "nat \<Rightarrow> nat \<Rightarrow> string \<Rightarrow> (network, nat) se" where
  "contract_between n1 n2 nm = (\<lambda>h.
     let shared = get_shared_edges h n1 n2
     in if shared = [] then (Inl (ValueError ''No edges found between nodes.''), h)
        else if n1 = n2 then contract_trace n1 shared nm h
        else contract_pair n1 n2 shared nm h)"

text \<open>
  \<^verbatim>\<open>tn.flatten_edges_between(a, b)\<close>: no shared edge gives \<^verbatim>\<open>None\<close>, one shared edge is
  returned as it is, several are merged into one.  On each node the merged axes are
  transposed to the back and reshaped into one axis, on which the new edge sits.  Which
  of the nodes becomes \<open>node1\<close> of the new edge depends on the iteration order of a Python
  set; the model takes \<open>a\<close>.
\<close>

definition flatten_node :: "nat \<Rightarrow> nat list \<Rightarrow> nat \<Rightarrow> network \<Rightarrow> network" where
  "flatten_node n back e h =
     (let nd = net_nodes h n; front = free_axes (length (edges nd)) back
      in h\<lparr>net_nodes := (net_nodes h)(n := nd\<lparr>tensor := merge_axes (tensor nd) front back,
                                               edges := map ((!) (edges nd)) front @ [e]\<rparr>),
           net_edges := move_edges (map (\<lambda>p. (edges nd ! p, n, p)) front) n 0 (net_edges h)\<rparr>)"

definition flatten_edges_between :: "nat \<Rightarrow> nat \<Rightarrow> (network, nat option) se" where
  "flatten_edges_between a b = (\<lambda>h.
     let shared = get_shared_edges h a b
     in if shared = [] then (Inr None, h)
        else if length shared = 1 then (Inr (Some (hd shared)), h)
        else if a = b
        then (Inl (ValueError ''Flattening trace edges is outside the model.''), h)
        else
          let e = next_edge h;
              backa = map (axis_at h a) shared;
              backb = map (axis_at h b) shared;
              h1 = flatten_node b backb e (flatten_node a backa e h)
          in (Inr (Some e),
              h1\<lparr>net_edges := (net_edges h1)
                    (e := \<lparr>node1 = a, axis1 = length (edges (net_nodes h a)) - length shared,
                           node2 = Some b,
                           axis2 = length (edges (net_nodes h b)) - length shared\<rparr>),
                 next_edge := Suc e\<rparr>))"

text \<open>
  The numerical kernel \<^verbatim>\<open>numpy.linalg.svd(M, full_matrices=False)\<close> is a parameter: for
  an \<open>m \<times> n\<close> matrix it gives \<open>U\<close> (\<open>m \<times> k\<close>), the singular values (\<open>k\<close>) and \<open>V\<^sup>\<dagger>\<close>
  (\<open>k \<times> n\<close>) with \<open>k = min m n\<close>.  The shapes are fixed by the model, the entries by
  the kernel.
\<close>

type_synonym svd_kernel =
  "nat \<Rightarrow> nat \<Rightarrow> (nat \<Rightarrow> nat \<Rightarrow> complex) \<Rightarrow>
     (nat \<Rightarrow> nat \<Rightarrow> complex) \<times> (nat \<Rightarrow> complex) \<times> (nat \<Rightarrow> nat \<Rightarrow> complex)"

text \<open>The length of the Python slice \<^verbatim>\<open>s[:k]\<close> of a list of length \<open>n\<close>.\<close>

definition slice_len :: "nat \<Rightarrow> int option \<Rightarrow> nat" where
  "slice_len n k =
     (case k of None \<Rightarrow> n
      | Some j \<Rightarrow> if 0 \<le> j then min (nat j) n else n - min n (nat (- j)))"

text \<open>
  \<^verbatim>\<open>node.tensor_from_edge_order(edges)\<close> needs every edge to end on the node, and
  \<^verbatim>\<open>numpy.transpose\<close> needs the axes found to be a permutation of all axes.
\<close>

definition edge_order :: "network \<Rightarrow> nat \<Rightarrow> nat list \<Rightarrow> error + nat list" where
  "edge_order h n es =
     (if \<exists>e \<in> set es. node1 (net_edges h e) \<noteq> n \<and> node2 (net_edges h e) \<noteq> Some n
      then Inl (ValueError ''edge is not connected to node'')
      else let order = map (axis_at h n) es
           in if length order = length (edges (net_nodes h n)) \<and> distinct order \<and>
                 (\<forall>p \<in> set order. p < length (edges (net_nodes h n)))
              then Inr order
              else Inl (ValueError ''axes do not match array''))"

text \<open>
  \<^verbatim>\<open>tn.split_node_full_svd(node, left_edges, right_edges, max_singular_values)\<close>: the
  node's tensor, as a matrix from the left edges to the right edges, is decomposed; \<open>U\<close>
  keeps the left edges, \<open>V\<^sup>\<dagger>\<close> the right ones, the diagonal matrix of the kept
  singular values sits between them, and the dropped singular values are returned.
\<close>

definition split_node_full_svd ::
  "svd_kernel \<Rightarrow> nat \<Rightarrow> nat list \<Rightarrow> nat list \<Rightarrow> int option \<Rightarrow>
     (network, nat \<times> nat \<times> nat \<times> complex list) se" where
  "split_node_full_svd svd n left_edges right_edges maxsvals = (\<lambda>h.
     case edge_order h n (left_edges @ right_edges) of
       Inl err \<Rightarrow> (Inl err, h)
     | Inr order \<Rightarrow>
         let t = tensor (net_nodes h n);
             ldims = map ((!) (shape t)) (take (length left_edges) order);
             rdims = map ((!) (shape t)) (drop (length left_edges) order);
             m = prod_list ldims; c = prod_list rdims;
             M = (\<lambda>i j. elem t (scatter (rank t) order (unravel ldims i @ unravel rdims j) []));
             (U, S, Vh) = svd m c M;
             keep = slice_len (min m c) maxsvals;
             ln = next_node h; sn = ln + 1; rn = ln + 2;
             b1 = next_edge h; b2 = b1 + 1;
             h1 = h\<lparr>net_nodes := (net_nodes h)
                      (ln := \<lparr>name = ''__unnamed_node__'',
                              tensor = \<lparr>shape = ldims @ [keep],
                                        elem = (\<lambda>idx. U (ravel ldims (butlast idx)) (last idx))\<rparr>,
                              edges = left_edges @ [b1]\<rparr>,
                       sn := \<lparr>name = ''__unnamed_node__'',
                              tensor = \<lparr>shape = [keep, keep],
                                        elem = (\<lambda>idx. if idx ! 0 = idx ! 1 then S (idx ! 0) else 0)\<rparr>,
                              edges = [b1, b2]\<rparr>,
                       rn := \<lparr>name = ''__unnamed_node__'',
                              tensor = \<lparr>shape = keep # rdims,
                                        elem = (\<lambda>idx. Vh (hd idx) (ravel rdims (tl idx)))\<rparr>,
                              edges = b2 # right_edges\<rparr>),
                    net_edges :=
                      move_edges (map (\<lambda>e. (e, n, axis_at h n e)) right_edges) rn 1
                        (move_edges (map (\<lambda>e. (e, n, axis_at h n e)) left_edges) ln 0
                           ((net_edges h)
                              (b1 := \<lparr>node1 = ln, axis1 = length left_edges,
                                      node2 = Some sn, axis2 = 0\<rparr>,
                               b2 := \<lparr>node1 = sn, axis1 = 1, node2 = Some rn, axis2 = 0\<rparr>))),
                    next_node := ln + 3,
                    next_edge := b1 + 2\<rparr>
         in (Inr (ln, sn, rn, map S [keep..<min m c]), fresh_edges n h1))"

text \<open>
  \<^verbatim>\<open>tn.copy(nodes)\<close>: every node gets a copy with the same name and tensor; an edge
  between two copied nodes gets a copy between the copies, any other edge of a copied
  node stays the dangling edge its copy was made with.  An edge whose \<open>node1\<close> is not
  copied makes the dictionary lookup fail.
\<close>

fun copy_nodes :: "nat list \<Rightarrow> (network, (nat \<times> nat) list) se" where
  "copy_nodes [] = ret []"
| "copy_nodes (n # ns) =
     bnd (\<lambda>h. Node (tensor (net_nodes h n)) (name (net_nodes h n)) h) (\<lambda>c.
     bnd (copy_nodes ns) (\<lambda>d. ret ((n, c) # d)))"

definition copy_edge :: "(nat \<times> nat) list \<Rightarrow> nat \<Rightarrow> (network, unit) se" where
  "copy_edge d e = (\<lambda>h.
     let E = net_edges h e
     in case map_of d (node1 E) of
          None \<Rightarrow> (Inl KeyError, h)
        | Some c1 \<Rightarrow>
            (case node2 E of
               None \<Rightarrow> (Inr (), h)
             | Some n2 \<Rightarrow>
                 (case map_of d n2 of
                    None \<Rightarrow> (Inr (), h)
                  | Some c2 \<Rightarrow>
                      let e' = next_edge h
                      in (Inr (),
                          h\<lparr>net_nodes := set_edge c2 (axis2 E) e'
                                           (set_edge c1 (axis1 E) e' (net_nodes h)),
                            net_edges := (net_edges h)
                              (e' := \<lparr>node1 = c1, axis1 = axis1 E,
                                      node2 = Some c2, axis2 = axis2 E\<rparr>),
                            next_edge := Suc e'\<rparr>))))"

fun copy_edges :: "(nat \<times> nat) list \<Rightarrow> nat list \<Rightarrow> (network, unit) se" where
  "copy_edges d [] = ret ()"
| "copy_edges d (e # es) = bnd (copy_edge d e) (\<lambda>_. copy_edges d es)"

definition copy :: "nat list \<Rightarrow> (network, nat list) se" where
  "copy ns = (\<lambda>h.
     bnd (copy_nodes (remdups ns)) (\<lambda>d.
     bnd (copy_edges d (remdups (concat (map (\<lambda>n. edges (net_nodes h n)) ns)))) (\<lambda>_.
     ret (map snd d))) h)"

text \<open>\<^verbatim>\<open>node.set_tensor\<close> and assignment to \<^verbatim>\<open>node.name\<close>.\<close>

definition set_tensor :: "nat \<Rightarrow> tensor \<Rightarrow> network \<Rightarrow> network" where
  "set_tensor n t h = h\<lparr>net_nodes := (net_nodes h)(n := (net_nodes h n)\<lparr>tensor := t\<rparr>)\<rparr>"

definition set_name :: "nat \<Rightarrow> string \<Rightarrow> network \<Rightarrow> network" where
  "set_name n nm h = h\<lparr>net_nodes := (net_nodes h)(n := (net_nodes h n)\<lparr>name := nm\<rparr>)\<rparr>"

section \<open>The matrix product state\<close>

text \<open>
  The fields of \<^verbatim>\<open>class MPS\<close>.  \<open>nodes\<close> holds the addresses of the site tensors, left to
  right; \<open>net\<close> is the object store in which they, and the gates handed to the methods,
  live.
\<close>

record mps =
  nqudits :: int
  qudit_dimension :: int
  prefix :: string
  nodes :: "nat list"
  max_bond_dimensions :: "int list"
  infidelities :: "real list"
  fidelities :: "real list"
  net :: network

text \<open>
  \<^verbatim>\<open>np.array([[1.0], *[[0]] * (d - 1)])\<close> and its rank-3 sibling: the first row holds
  1, the \<open>d - 1\<close> others (none when \<open>d \<le> 1\<close>) hold 0; \<open>r\<close> is the number of virtual axes.
\<close>

definition zero_state :: "int \<Rightarrow> nat \<Rightarrow> tensor" where
  "zero_state d r =
     \<lparr>shape = Suc (nat (d - 1)) # replicate r 1,
      elem = (\<lambda>idx. if idx ! 0 = 0 then 1 else 0)\<rparr>"

text \<open>The list comprehension that builds the interior nodes, for \<open>x\<close> in \<^verbatim>\<open>range(nqudits - 2)\<close>.\<close>

fun interior_nodes :: "int \<Rightarrow> string \<Rightarrow> int list \<Rightarrow> (network, nat list) se" where
  "interior_nodes d p [] = ret []"
| "interior_nodes d p (x # xs) =
     bnd (Node (zero_state d 2) (p @ str_int (x + 1))) (\<lambda>n.
     bnd (interior_nodes d p xs) (\<lambda>ns. ret (n # ns)))"

text \<open>\<^verbatim>\<open>tn.connect(nodes[i].get_edge(a), nodes[j].get_edge(b))\<close>.\<close>

definition connect_nodes :: "nat list \<Rightarrow> int \<Rightarrow> nat \<Rightarrow> int \<Rightarrow> nat \<Rightarrow> (network, unit) se" where
  "connect_nodes ns i a j b =
     bnd (lift (py_get ns i)) (\<lambda>n1.
     bnd (get_edge_of n1 a) (\<lambda>e1.
     bnd (lift (py_get ns j)) (\<lambda>n2.
     bnd (get_edge_of n2 b) (\<lambda>e2.
     bnd (connect e1 e2) (\<lambda>_. ret ())))))"

text \<open>The loop over \<^verbatim>\<open>range(1, nqudits - 2)\<close> that connects the middle nodes.\<close>

fun connect_middle :: "nat list \<Rightarrow> int list \<Rightarrow> (network, unit) se" where
  "connect_middle ns [] = ret ()"
| "connect_middle ns (i # is) =
     bnd (connect_nodes ns i 2 (i + 1) 1) (\<lambda>_. connect_middle ns is)"

definition py_range2 :: "int \<Rightarrow> int \<Rightarrow> int list" where
  "py_range2 a b = map (\<lambda>k. a + int k) [0..<nat (b - a)]"

text \<open>
  The ceilings: \<^verbatim>\<open>[d ** (i + 1) for i in range(N // 2)]\<close>, then its reverse appended, then
  the first occurrence of \<^verbatim>\<open>d ** (N // 2)\<close> removed when \<open>N\<close> is even.
\<close>

definition max_bond_list :: "int \<Rightarrow> int \<Rightarrow> error + int list" where
  "max_bond_list n d =
     (let half = map (\<lambda>i. d ^ nat (i + 1)) (py_range (n div 2));
          full = half @ rev half
      in if n mod 2 = 0
         then (if d ^ nat (n div 2) \<in> set full
               then Inr (remove1 (d ^ nat (n div 2)) full)
               else Inl (ValueError ''list.remove(x): x not in list''))
         else Inr full)"

text \<open>\<^verbatim>\<open>MPS.__init__\<close>, run in the store \<open>h\<close>.\<close>

definition build_nodes :: "int \<Rightarrow> int \<Rightarrow> string \<Rightarrow> (network, nat list) se" where
  "build_nodes n d p =
     bnd (interior_nodes d p (py_range (n - 2))) (\<lambda>mid.
     bnd (Node (zero_state d 1) (p @ str_int 0)) (\<lambda>first.
     bnd (Node (zero_state d 1) (p @ str_int (n - 1))) (\<lambda>lst.
     let ns = first # mid @ [lst] in
     bnd (connect_middle ns (py_range2 1 (n - 2))) (\<lambda>_.
     bnd (if n < 3 then connect_nodes ns 0 1 1 1
          else bnd (connect_nodes ns 0 1 1 1) (\<lambda>_. connect_nodes ns (- 1) 1 (- 2) 2)) (\<lambda>_.
     ret ns)))))"

definition MPS_init :: "int \<Rightarrow> int \<Rightarrow> string \<Rightarrow> network \<Rightarrow> error + mps" where
  "MPS_init n d p h =
     (if n < 2 then Inl (ValueError ''Number of qudits must be greater than 2.'')
      else case build_nodes n d p h of
        (Inl e, _) \<Rightarrow> Inl e
      | (Inr ns, h') \<Rightarrow>
          (case max_bond_list n d of
             Inl e \<Rightarrow> Inl e
           | Inr mb \<Rightarrow>
               Inr \<lparr>nqudits = n, qudit_dimension = d, prefix = p, nodes = ns,
                    max_bond_dimensions = mb, infidelities = [], fidelities = [],
                    net = h'\<rparr>))"

text \<open>\<^verbatim>\<open>MPS.get_max_bond_dimension_of\<close>.\<close>

definition get_max_bond_dimension_of :: "mps \<Rightarrow> int \<Rightarrow> error + int" where
  "get_max_bond_dimension_of m index =
     (if index \<ge> nqudits m then Inl (ValueError ''Index should be less than nqudits.'')
      else py_get (max_bond_dimensions m) index)"

text \<open>A computation on the object store, run on the store of the chain.\<close>

definition on_net :: "(network, 'a) se \<Rightarrow> (mps, 'a) se" where
  "on_net f = (\<lambda>m. case f (net m) of (r, h) \<Rightarrow> (r, m\<lparr>net := h\<rparr>))"

text \<open>Python list assignment \<^verbatim>\<open>xs[i] = v\<close>.\<close>

definition py_set :: "'a list \<Rightarrow> int \<Rightarrow> 'a \<Rightarrow> error + 'a list" where
  "py_set xs i v =
     (if 0 \<le> i \<and> i < int (length xs) then Inr (xs[nat i := v])
      else if i < 0 \<and> - int (length xs) \<le> i then Inr (xs[nat (int (length xs) + i) := v])
      else Inl IndexError)"

text \<open>
  \<^verbatim>\<open>MPS.is_valid\<close>.  The loop returns \<^verbatim>\<open>False\<close> at the first site that fails one of its
  checks, so it returns \<^verbatim>\<open>True\<close> exactly when every site passes all of them.
\<close>

definition site_valid :: "network \<Rightarrow> nat list \<Rightarrow> nat \<Rightarrow> bool" where
  "site_valid h ns i =
     (length (get_all_dangling h (ns ! i)) = 1 \<and>
      length (get_all_nondangling h (ns ! i)) =
        (if i = 0 \<or> i = length ns - 1 then 1 else 2) \<and>
      (i < length ns - 1 \<longrightarrow> check_connected h (ns ! i) (ns ! (i + 1))))"

definition is_valid :: "mps \<Rightarrow> bool" where
  "is_valid m =
     (\<not> length (nodes m) < 2 \<and>
      list_all (site_valid (net m) (nodes m)) [0..<length (nodes m)])"

text \<open>\<^verbatim>\<open>MPS.get_node(i, copy=False)\<close>.\<close>

definition get_node :: "mps \<Rightarrow> int \<Rightarrow> error + nat" where
  "get_node m i = py_get (nodes m) i"

text \<open>\<^verbatim>\<open>MPS.get_bond_dimension_of\<close>.\<close>

definition get_bond_dimension_of :: "mps \<Rightarrow> int \<Rightarrow> error + int" where
  "get_bond_dimension_of m index =
     (if \<not> is_valid m then Inl (ValueError ''MPS is invalid.'')
      else if index \<ge> nqudits m then Inl (ValueError ''Index should be less than nqudits.'')
      else case get_node m index of
        Inl e \<Rightarrow> Inl e
      | Inr left \<Rightarrow>
          (case get_node m (index + 1) of
             Inl e \<Rightarrow> Inl e
           | Inr right \<Rightarrow>
               if \<not> check_connected (net m) left right
               then Inl (ValueError ''Non-connected graph'')
               else case pop (get_shared_edges (net m) left right) of
                      Inl e \<Rightarrow> Inl e
                    | Inr e \<Rightarrow> Inr (int (dimension (net m) e))))"

text \<open>\<^verbatim>\<open>MPS.get_bond_dimensions\<close>: the loop over \<^verbatim>\<open>range(nqudits - 1)\<close>.\<close>

fun bond_dimensions_from :: "mps \<Rightarrow> int list \<Rightarrow> error + int list" where
  "bond_dimensions_from m [] = Inr []"
| "bond_dimensions_from m (i # is) =
     (case get_bond_dimension_of m i of
        Inl e \<Rightarrow> Inl e
      | Inr b \<Rightarrow> (case bond_dimensions_from m is of Inl e \<Rightarrow> Inl e | Inr bs \<Rightarrow> Inr (b # bs)))"

definition get_bond_dimensions :: "mps \<Rightarrow> error + int list" where
  "get_bond_dimensions m = bond_dimensions_from m (py_range (nqudits m - 1))"

text \<open>
  \<^verbatim>\<open>np.reshape(t, newshape=(k))\<close> to a vector: \<open>k\<close> must be the number of entries, or
  \<open>-1\<close>, which numpy replaces by it.
\<close>

definition reshape_vector :: "tensor \<Rightarrow> int \<Rightarrow> error + complex list" where
  "reshape_vector t k =
     (if k = - 1 \<or> k = int (prod_list (shape t))
      then Inr (map (\<lambda>j. elem t (unravel (shape t) j)) [0..<prod_list (shape t)])
      else Inl (ValueError ''cannot reshape array''))"

text \<open>
  \<^verbatim>\<open>MPS.wavefunction\<close>.  The contraction runs on copies of the nodes, which nothing
  refers to once the vector is returned: the store of the chain stays as it is.
\<close>

fun contract_chain :: "nat \<Rightarrow> nat list \<Rightarrow> (network, nat) se" where
  "contract_chain fin [] = ret fin"
| "contract_chain fin (n # ns) =
     bnd (contract_between fin n ''__unnamed_node__'') (\<lambda>f. contract_chain f ns)"

definition wavefunction :: "mps \<Rightarrow> error + complex list" where
  "wavefunction m =
     (if \<not> is_valid m then Inl (ValueError ''MPS is not valid.'')
      else case bnd (copy (nodes m))
                  (\<lambda>cs. case cs of [] \<Rightarrow> throw IndexError
                         | c # rest \<Rightarrow> contract_chain c rest) (net m) of
        (Inl e, _) \<Rightarrow> Inl e
      | (Inr fin, h) \<Rightarrow>
          if set (get_all_dangling h fin) \<noteq> set (get_all_edges h fin)
          then Inl (ValueError ''Invalid MPS.'')
          else reshape_vector (tensor (net_nodes h fin))
                 (qudit_dimension m ^ nat (nqudits m)))"

text \<open>\<^verbatim>\<open>MPS.norm\<close>, on two copies of the chain.\<close>

definition pop_dangling :: "nat \<Rightarrow> (network, nat) se" where
  "pop_dangling n = (\<lambda>h. (pop (get_all_dangling h n), h))"

fun connect_pairs :: "nat list \<Rightarrow> nat list \<Rightarrow> int list \<Rightarrow> (network, unit) se" where
  "connect_pairs a b [] = ret ()"
| "connect_pairs a b (i # is) =
     bnd (lift (py_get a i)) (\<lambda>x.
     bnd (pop_dangling x) (\<lambda>e1.
     bnd (lift (py_get b i)) (\<lambda>y.
     bnd (pop_dangling y) (\<lambda>e2.
     bnd (connect e1 e2) (\<lambda>_. connect_pairs a b is)))))"

fun norm_sweep :: "nat list \<Rightarrow> nat list \<Rightarrow> int list \<Rightarrow> (network, nat list) se" where
  "norm_sweep a b [] = ret a"
| "norm_sweep a b (i # is) =
     bnd (lift (py_get a i)) (\<lambda>x.
     bnd (lift (py_get b i)) (\<lambda>y.
     bnd (contract_between x y ''__unnamed_node__'') (\<lambda>mid.
     bnd (lift (py_get a (i + 1))) (\<lambda>z.
     bnd (contract_between mid z ''__unnamed_node__'') (\<lambda>new.
     bnd (lift (py_set a (i + 1) new)) (\<lambda>a'. norm_sweep a' b is))))))"

definition conj_all :: "nat list \<Rightarrow> network \<Rightarrow> network" where
  "conj_all b h = fold (\<lambda>n h'. set_tensor n (conj_tensor (tensor (net_nodes h' n))) h') b h"

definition norm_contract :: "mps \<Rightarrow> (network, nat) se" where
  "norm_contract m =
     bnd (copy (nodes m)) (\<lambda>a.
     bnd (copy (nodes m)) (\<lambda>b.
     bnd (\<lambda>h. (Inr (), conj_all b h)) (\<lambda>_.
     bnd (connect_pairs a b (py_range (nqudits m))) (\<lambda>_.
     bnd (norm_sweep a b (py_range (nqudits m - 1))) (\<lambda>a'.
     bnd (lift (py_get a' (- 1))) (\<lambda>x.
     bnd (lift (py_get b (- 1))) (\<lambda>y.
     contract_between x y ''__unnamed_node__'')))))))"

definition norm :: "mps \<Rightarrow> error + real" where
  "norm m =
     (case norm_contract m (net m) of
        (Inl e, _) \<Rightarrow> Inl e
      | (Inr fin, h) \<Rightarrow>
          if length (edges (net_nodes h fin)) \<noteq> 0 then Inl AssertionError
          else if \<not> \<bar>Im (elem (tensor (net_nodes h fin)) [])\<bar> \<le> 1 / 10 ^ 8
          then Inl AssertionError
          else Inr (cmod (elem (tensor (net_nodes h fin)) [])))"

text \<open>\<^verbatim>\<open>index not in range(self._nqudits)\<close>.\<close>

definition in_range :: "mps \<Rightarrow> int \<Rightarrow> bool" where
  "in_range m i = (0 \<le> i \<and> i < nqudits m)"

text \<open>\<^verbatim>\<open>list(node.get_all_dangling())[0]\<close>.\<close>

definition first_dangling :: "nat \<Rightarrow> (network, nat) se" where
  "first_dangling n = (\<lambda>h. (py_get (get_all_dangling h n) 0, h))"

text \<open>\<^verbatim>\<open>MPS.apply_one_qubit_gate\<close>; \<open>gate\<close> is the address of the gate node.\<close>

definition apply_one_qubit_gate :: "nat \<Rightarrow> int \<Rightarrow> (mps, unit) se" where
  "apply_one_qubit_gate gate index = (\<lambda>m.
     if \<not> is_valid m
     then (Inl (ValueError ''Input mpslist does not define a valid MPS.''), m)
     else if \<not> in_range m index
     then (Inl (ValueError ''Input tensor index is out of bounds.''), m)
     else if length (get_all_dangling (net m) gate) \<noteq> 2 \<or>
             length (get_all_nondangling (net m) gate) \<noteq> 0
     then (Inl (ValueError
             ''Single qubit gate must have two free edges and zero connected edges.''), m)
     else
       bnd (lift (py_get (nodes m) index)) (\<lambda>site.
       bnd (on_net (first_dangling site)) (\<lambda>mps_edge.
       bnd (on_net (get_edge_of gate 0)) (\<lambda>gate_edge.
       bnd (on_net (connect mps_edge gate_edge)) (\<lambda>joined.
       bnd (on_net (\<lambda>h. contract joined (name (net_nodes h site)) h)) (\<lambda>new.
       bnd (lift (py_set (nodes m) index new)) (\<lambda>ns.
       (\<lambda>m'. (Inr (), m'\<lparr>nodes := ns\<rparr>)))))))) m)"

text \<open>\<^verbatim>\<open>MPS.apply_one_qubit_gate_to_all\<close>: the loop over \<^verbatim>\<open>range(nqudits)\<close>.\<close>

fun apply_one_qubit_gate_each :: "nat \<Rightarrow> int list \<Rightarrow> (mps, unit) se" where
  "apply_one_qubit_gate_each gate [] = ret ()"
| "apply_one_qubit_gate_each gate (i # is) =
     bnd (apply_one_qubit_gate gate i) (\<lambda>_. apply_one_qubit_gate_each gate is)"

definition apply_one_qubit_gate_to_all :: "nat \<Rightarrow> (mps, unit) se" where
  "apply_one_qubit_gate_to_all gate = (\<lambda>m.
     apply_one_qubit_gate_each gate (py_range (nqudits m)) m)"

section \<open>Two-site gates\<close>

text \<open>
  The keyword arguments the method looks at; \<open>None\<close> is a key that is absent.
\<close>

record kwargs =
  keep_left_canonical :: "bool option"
  fraction :: "real option"
  maxsvals :: "int option"

text \<open>
  \<^verbatim>\<open>prefix in name\<close>, the last piece of \<^verbatim>\<open>name.split(prefix)\<close> (pieces are cut at the
  occurrences of the separator found from left to right), and \<^verbatim>\<open>int(...)\<close> of a string
  of decimal digits with an optional sign.
\<close>

fun starts_with :: "string \<Rightarrow> string \<Rightarrow> bool" where
  "starts_with [] s = True"
| "starts_with (p # ps) [] = False"
| "starts_with (p # ps) (c # cs) = (p = c \<and> starts_with ps cs)"

fun py_in :: "string \<Rightarrow> string \<Rightarrow> bool" where
  "py_in p [] = (p = [])"
| "py_in p (c # cs) = (starts_with p (c # cs) \<or> py_in p cs)"

fun last_piece :: "string \<Rightarrow> string \<Rightarrow> nat \<Rightarrow> string \<Rightarrow> string" where
  "last_piece sep acc k [] = acc"
| "last_piece sep acc (Suc k) (c # cs) = last_piece sep acc k cs"
| "last_piece sep acc 0 (c # cs) =
     (if starts_with sep (c # cs) then last_piece sep [] (length sep - 1) cs
      else last_piece sep (acc @ [c]) 0 cs)"

definition digit_val :: "char \<Rightarrow> nat option" where
  "digit_val c = (if 48 \<le> (of_char c :: nat) \<and> (of_char c :: nat) \<le> 57
                  then Some (of_char c - 48) else None)"

fun digits_val :: "nat \<Rightarrow> string \<Rightarrow> nat option" where
  "digits_val acc [] = Some acc"
| "digits_val acc (c # cs) =
     (case digit_val c of None \<Rightarrow> None | Some v \<Rightarrow> digits_val (10 * acc + v) cs)"

definition py_int :: "string \<Rightarrow> error + int" where
  "py_int s =
     (let body = (if s \<noteq> [] \<and> (hd s = CHR ''-'' \<or> hd s = CHR ''+'') then tl s else s)
      in if body = [] then Inl (ValueError ''invalid literal for int()'')
         else case digits_val 0 body of
                None \<Rightarrow> Inl (ValueError ''invalid literal for int()'')
              | Some v \<Rightarrow> Inr (if s \<noteq> [] \<and> hd s = CHR ''-'' then - int v else int v))"

text \<open>\<^verbatim>\<open>int(name.split(prefix)[-1])\<close>.\<close>

definition name_index :: "string \<Rightarrow> string \<Rightarrow> error + int" where
  "name_index p nm =
     (if p = [] then Inl (ValueError ''empty separator'')
      else py_int (last_piece p [] 0 nm))"

text \<open>
  The loop over the connected edges of the merged node: the site index is read off the
  name of the node at the other end, and the edge is kept as the left or the right one.
\<close>

definition neighbour_index :: "string \<Rightarrow> network \<Rightarrow> nat \<Rightarrow> error + int" where
  "neighbour_index p h e =
     (if py_in p (name (net_nodes h (node1 (net_edges h e))))
      then name_index p (name (net_nodes h (node1 (net_edges h e))))
      else case node2 (net_edges h e) of
             None \<Rightarrow> Inl AttributeError
           | Some n2 \<Rightarrow> name_index p (name (net_nodes h n2)))"

fun connected_edges ::
  "string \<Rightarrow> int \<Rightarrow> network \<Rightarrow> nat list \<Rightarrow> nat option \<times> nat option \<Rightarrow>
     error + nat option \<times> nat option" where
  "connected_edges p left_index h [] lr = Inr lr"
| "connected_edges p left_index h (e # es) lr =
     (case neighbour_index p h e of
        Inl err \<Rightarrow> Inl err
      | Inr index \<Rightarrow>
          if index \<le> left_index then connected_edges p left_index h es (Some e, snd lr)
          else connected_edges p left_index h es (fst lr, Some e))"

text \<open>Python's \<^verbatim>\<open>round\<close>: to the nearest integer, a tie to the even one.\<close>

definition py_round :: "real \<Rightarrow> int" where
  "py_round x =
     (if x - of_int \<lfloor>x\<rfloor> < 1 / 2 then \<lfloor>x\<rfloor>
      else if x - of_int \<lfloor>x\<rfloor> > 1 / 2 then \<lfloor>x\<rfloor> + 1
      else if even \<lfloor>x\<rfloor> then \<lfloor>x\<rfloor> else \<lfloor>x\<rfloor> + 1)"

text \<open>The number of singular values to keep, from the keyword arguments.\<close>

definition svd_cap :: "mps \<Rightarrow> kwargs \<Rightarrow> int \<Rightarrow> int \<Rightarrow> error + int option" where
  "svd_cap m kw indexA indexB =
     (if fraction kw \<noteq> None \<and> maxsvals kw \<noteq> None
      then Inl (ValueError ''Only one of (fraction, maxsvals) can be provided as kwargs.'')
      else case fraction kw of
        Some f \<Rightarrow>
          if \<not> (0 \<le> f \<and> f \<le> 1)
          then Inl (ValueError ''Keyword fraction must be between 0 and 1'')
          else (case get_max_bond_dimension_of m (min indexA indexB) of
                  Inl e \<Rightarrow> Inl e
                | Inr c \<Rightarrow> Inr (Some (py_round (f * of_int c))))
      | None \<Rightarrow> Inr (maxsvals kw))"

text \<open>\<^verbatim>\<open>[edge for edge in (free, connected) if edge is not None]\<close>.\<close>

definition edge_group :: "nat \<Rightarrow> nat option \<Rightarrow> nat list" where
  "edge_group free bond = free # (case bond of None \<Rightarrow> [] | Some e \<Rightarrow> [e])"

text \<open>
  The body of \<^verbatim>\<open>MPS.apply_two_qubit_gate\<close> after its checks, for \<open>indexA < indexB\<close>
  (so \<open>left_index = indexA\<close> and \<open>right_index = indexB\<close>).
\<close>

definition two_qubit_body :: "svd_kernel \<Rightarrow> nat \<Rightarrow> int \<Rightarrow> int \<Rightarrow> kwargs \<Rightarrow> (mps, unit) se" where
  "two_qubit_body svd gate indexA indexB kw = (\<lambda>m.
     (bnd (lift (py_get (nodes m) indexA)) (\<lambda>nodeA.
      bnd (on_net (first_dangling nodeA)) (\<lambda>edgeA.
      bnd (on_net (get_edge_of gate 0)) (\<lambda>gate0.
      bnd (on_net (connect edgeA gate0)) (\<lambda>_.
      bnd (lift (py_get (nodes m) indexB)) (\<lambda>nodeB.
      bnd (on_net (first_dangling nodeB)) (\<lambda>edgeB.
      bnd (on_net (get_edge_of gate 1)) (\<lambda>gate1.
      bnd (on_net (connect edgeB gate1)) (\<lambda>_.
      bnd (on_net (get_edge_of gate 2)) (\<lambda>left_gate_edge.
      bnd (on_net (get_edge_of gate 3)) (\<lambda>right_gate_edge.
      bnd (on_net (contract_between nodeA nodeB ''new_mps_tensor'')) (\<lambda>merged.
      bnd (on_net (flatten_edges_between merged gate)) (\<lambda>node_gate_edge.
      bnd (case node_gate_edge of None \<Rightarrow> throw AttributeError
           | Some e \<Rightarrow> on_net (contract e ''new_mps_tensor'')) (\<lambda>new_node.
      bnd (\<lambda>m'. (connected_edges (prefix m') indexA (net m')
                    (get_all_nondangling (net m') new_node) (None, None), m')) (\<lambda>lr.
      bnd (lift (svd_cap m kw indexA indexB)) (\<lambda>cap.
      bnd (on_net (split_node_full_svd svd new_node
                     (edge_group left_gate_edge (fst lr))
                     (edge_group right_gate_edge (snd lr)) cap)) (\<lambda>(u, s, vdag, truncated).
      bnd (\<lambda>m'. (Inr (), m'\<lparr>infidelities := infidelities m' @
                     [Re (sum_list (map (\<lambda>x. cnj x * x) truncated))]\<rparr>)) (\<lambda>_.
      bnd (if keep_left_canonical kw \<noteq> Some False
           then bnd (on_net (contract_between s vdag ''__unnamed_node__''))
                  (\<lambda>new_right. ret (u, new_right))
           else bnd (on_net (contract_between u s ''__unnamed_node__''))
                  (\<lambda>new_left. ret (new_left, vdag))) (\<lambda>(new_left, new_right).
      bnd (on_net (\<lambda>h. (Inr (), set_name new_left (name (net_nodes h nodeA)) h))) (\<lambda>_.
      bnd (on_net (\<lambda>h. (Inr (), set_name new_right (name (net_nodes h nodeB)) h))) (\<lambda>_.
      bnd (\<lambda>m'. case py_set (nodes m') indexA new_left of
                   Inl e \<Rightarrow> (Inl e, m') | Inr ns \<Rightarrow> (Inr (), m'\<lparr>nodes := ns\<rparr>)) (\<lambda>_.
      bnd (\<lambda>m'. case py_set (nodes m') indexB new_right of
                   Inl e \<Rightarrow> (Inl e, m') | Inr ns \<Rightarrow> (Inr (), m'\<lparr>nodes := ns\<rparr>)) (\<lambda>_.
      (\<lambda>m'. case norm m' of
               Inl e \<Rightarrow> (Inl e, m')
             | Inr f \<Rightarrow> (Inr (), m'\<lparr>fidelities := fidelities m' @ [f]\<rparr>))
      ))))))))))))))))))))))) m)"

text \<open>\<^verbatim>\<open>MPS.apply_two_qubit_gate\<close>.\<close>

definition apply_two_qubit_gate ::
  "svd_kernel \<Rightarrow> nat \<Rightarrow> int \<Rightarrow> int \<Rightarrow> kwargs \<Rightarrow> (mps, unit) se" where
  "apply_two_qubit_gate svd gate indexA indexB kw = (\<lambda>m.
     if \<not> is_valid m
     then (Inl (ValueError ''Input mpslist does not define a valid MPS.''), m)
     else if \<not> in_range m indexA \<or> \<not> in_range m indexB
     then (Inl (ValueError ''Input tensor indices are out of bounds.''), m)
     else if indexA = indexB
     then (Inl (ValueError ''Input indices cannot be identical.''), m)
     else if \<bar>indexA - indexB\<bar> \<noteq> 1
     then (Inl (ValueError
             ''Indices must be for adjacent tensors (must differ by one).''), m)
     else if length (get_all_dangling (net m) gate) \<noteq> 4 \<or>
             length (get_all_nondangling (net m) gate) \<noteq> 0
     then (Inl (ValueError
             ''Two qubit gate must have four free edges and zero connected edges.''), m)
     else if \<not> indexA < indexB
     then (Inl (ValueError ''IndexA must be less than IndexB.''), m)
     else two_qubit_body svd gate indexA indexB kw m)"

section \<open>Gates, the swap router and the dispatcher\<close>

text \<open>
  The gate constructors of \<^verbatim>\<open>gates.py\<close>: each call makes a new node.  The two-qubit
  matrices are reshaped to \<open>(2, 2, 2, 2)\<close>, so entry \<open>[a, b, c, d]\<close> is the matrix entry
  in row \<open>2a + b\<close> and column \<open>2c + d\<close>.
\<close>

definition matrix_tensor :: "nat list \<Rightarrow> complex list \<Rightarrow> tensor" where
  "matrix_tensor sh xs = \<lparr>shape = sh, elem = (\<lambda>idx. xs ! ravel sh idx)\<rparr>"

definition xgate :: "(network, nat) se" where
  "xgate = Node (matrix_tensor [2, 2] [0, 1, 1, 0]) ''xgate''"

definition hgate :: "(network, nat) se" where
  "hgate = Node (matrix_tensor [2, 2]
     [1 / complex_of_real (sqrt 2), 1 / complex_of_real (sqrt 2),
      1 / complex_of_real (sqrt 2), - 1 / complex_of_real (sqrt 2)]) ''hgate''"

definition cnot_gate :: "(network, nat) se" where
  "cnot_gate = Node (matrix_tensor [2, 2, 2, 2]
     [1, 0, 0, 0,  0, 1, 0, 0,  0, 0, 0, 1,  0, 0, 1, 0]) ''cnot''"

definition swap_gate :: "(network, nat) se" where
  "swap_gate = Node (matrix_tensor [2, 2, 2, 2]
     [1, 0, 0, 0,  0, 0, 1, 0,  0, 1, 0, 0,  0, 0, 0, 1]) ''swap''"

text \<open>
  \<^verbatim>\<open>rgate(seed, angle_scale)\<close> draws a random unitary; \<open>rg k\<close> stands for the matrix of
  the \<open>k\<close>-th draw.
\<close>

definition rgate :: "tensor \<Rightarrow> (network, nat) se" where
  "rgate t = Node t ''__unnamed_node__''"

text \<open>\<^verbatim>\<open>MPS.x\<close>, \<^verbatim>\<open>MPS.h\<close> and \<^verbatim>\<open>MPS.r\<close> (one-letter names would capture variables).\<close>

definition mps_x :: "int \<Rightarrow> (mps, unit) se" where
  "mps_x index =
     (if index = - 1 then bnd (on_net xgate) (\<lambda>g. apply_one_qubit_gate_to_all g)
      else bnd (on_net xgate) (\<lambda>g. apply_one_qubit_gate g index))"

definition mps_h :: "int \<Rightarrow> (mps, unit) se" where
  "mps_h index =
     (if index = - 1 then bnd (on_net hgate) (\<lambda>g. apply_one_qubit_gate_to_all g)
      else bnd (on_net hgate) (\<lambda>g. apply_one_qubit_gate g index))"

fun r_each :: "(nat \<Rightarrow> tensor) \<Rightarrow> nat \<Rightarrow> int list \<Rightarrow> (mps, unit) se" where
  "r_each rg k [] = ret ()"
| "r_each rg k (i # is) =
     bnd (on_net (rgate (rg k))) (\<lambda>g.
     bnd (apply_one_qubit_gate g i) (\<lambda>_. r_each rg (Suc k) is))"

definition mps_r :: "(nat \<Rightarrow> tensor) \<Rightarrow> int \<Rightarrow> (mps, unit) se" where
  "mps_r rg index = (\<lambda>m.
     if index = - 1 then r_each rg 0 (py_range (nqudits m)) m
     else bnd (on_net (rgate (rg 0))) (\<lambda>g. apply_one_qubit_gate g index) m)"

text \<open>\<^verbatim>\<open>MPS.cnot\<close> and \<^verbatim>\<open>MPS.swap\<close>.\<close>

definition cnot :: "svd_kernel \<Rightarrow> int \<Rightarrow> int \<Rightarrow> kwargs \<Rightarrow> (mps, unit) se" where
  "cnot svd a b kw = bnd (on_net cnot_gate) (\<lambda>g. apply_two_qubit_gate svd g a b kw)"

definition swap :: "svd_kernel \<Rightarrow> int \<Rightarrow> int \<Rightarrow> kwargs \<Rightarrow> (mps, unit) se" where
  "swap svd a b kw = bnd (on_net swap_gate) (\<lambda>g. apply_two_qubit_gate svd g a b kw)"

text \<open>\<^verbatim>\<open>MPS.swap_until_adjacent\<close>; \<open>swap_loop\<close> is its \<^verbatim>\<open>while\<close> loop.\<close>

function swap_loop :: "svd_kernel \<Rightarrow> kwargs \<Rightarrow> int \<Rightarrow> int \<Rightarrow> mps \<Rightarrow> (error + unit) \<times> mps" where
  "swap_loop svd kw right_index left_index m =
     (if left_index < right_index - 1
      then (case swap svd left_index (left_index + 1) kw m of
              (Inl e, m') \<Rightarrow> (Inl e, m')
            | (Inr _, m') \<Rightarrow> swap_loop svd kw right_index (left_index + 1) m')
      else (Inr (), m))"
  by pat_completeness auto
termination
  by (relation "measure (\<lambda>(svd, kw, r, l, m). nat (r - l))") auto

definition swap_until_adjacent :: "svd_kernel \<Rightarrow> int \<Rightarrow> int \<Rightarrow> kwargs \<Rightarrow> (mps, unit) se" where
  "swap_until_adjacent svd left_index right_index kw = (\<lambda>m.
     if left_index \<ge> right_index
     then (Inl (ValueError ''left_index should be less than right_index.''), m)
     else if left_index < 0 \<or> right_index \<ge> nqudits m
     then (Inl (ValueError ''Indices out of range.''), m)
     else if left_index = right_index - 1 then (Inr (), m)
     else swap_loop svd kw right_index left_index m)"

text \<open>
  Modelled from the spec: \<^verbatim>\<open>MPSOperation\<close> (\<^verbatim>\<open>mpsim/mpsim_cirq/circuits.py\<close>) is not among
  the sources.  The spec (4.6) gives an operation a gate tensor, an arity, an ordered
  list of target indices and a validity predicate: the arity matches the tensor's edge
  count, the indices are in bounds, and they are distinct for arity 2.  The arity is the
  number of target indices.
\<close>

record mps_operation =
  op_node :: nat
  qudit_indices :: "int list"

definition op_is_valid :: "mps \<Rightarrow> mps_operation \<Rightarrow> bool" where
  "op_is_valid m op =
     (length (edges (net_nodes (net m) (op_node op))) = 2 * length (qudit_indices op) \<and>
      (\<forall>i \<in> set (qudit_indices op). 0 \<le> i \<and> i < nqudits m) \<and>
      (length (qudit_indices op) = 2 \<longrightarrow> distinct (qudit_indices op)))"

definition is_single_qudit_operation :: "mps_operation \<Rightarrow> bool" where
  "is_single_qudit_operation op = (length (qudit_indices op) = 1)"

definition is_two_qudit_operation :: "mps_operation \<Rightarrow> bool" where
  "is_two_qudit_operation op = (length (qudit_indices op) = 2)"

text \<open>\<^verbatim>\<open>MPS.apply_mps_operation\<close>.\<close>

definition apply_mps_operation :: "svd_kernel \<Rightarrow> mps_operation \<Rightarrow> kwargs \<Rightarrow> (mps, unit) se" where
  "apply_mps_operation svd op kw = (\<lambda>m.
     if \<not> op_is_valid m op
     then (Inl (ValueError ''Input MPS Operation is not valid.''), m)
     else if is_single_qudit_operation op
     then apply_one_qubit_gate (op_node op) (qudit_indices op ! 0) m
     else if is_two_qudit_operation op
     then apply_two_qubit_gate svd (op_node op)
            (qudit_indices op ! 0) (qudit_indices op ! 1) kw m
     else (Inl (ValueError
             ''Only one-qudit and two-qudit gates are currently supported.''), m))"

section \<open>Well-formed chains\<close>

text \<open>
  What the axis \<open>p\<close> of node \<open>n\<close> carries: a dangling edge of its own, or an edge shared
  with axis \<open>q\<close> of another node \<open>m\<close> of the same dimension.  In both cases the edge
  record points back to the axis, and the addresses are allocated ones.
\<close>

definition dangling_slot :: "network \<Rightarrow> nat \<Rightarrow> nat \<Rightarrow> bool" where
  "dangling_slot h n p =
     (n < next_node h \<and> p < length (edges (net_nodes h n)) \<and>
      edges (net_nodes h n) ! p < next_edge h \<and>
      node1 (net_edges h (edges (net_nodes h n) ! p)) = n \<and>
      axis1 (net_edges h (edges (net_nodes h n) ! p)) = p \<and>
      node2 (net_edges h (edges (net_nodes h n) ! p)) = None)"

definition bonded :: "network \<Rightarrow> nat \<Rightarrow> nat \<Rightarrow> nat \<Rightarrow> nat \<Rightarrow> bool" where
  "bonded h n p m q =
     (n < next_node h \<and> m < next_node h \<and> n \<noteq> m \<and>
      p < length (edges (net_nodes h n)) \<and> q < length (edges (net_nodes h m)) \<and>
      edges (net_nodes h n) ! p = edges (net_nodes h m) ! q \<and>
      edges (net_nodes h n) ! p < next_edge h \<and>
      ((node1 (net_edges h (edges (net_nodes h n) ! p)) = n \<and>
        axis1 (net_edges h (edges (net_nodes h n) ! p)) = p \<and>
        node2 (net_edges h (edges (net_nodes h n) ! p)) = Some m \<and>
        axis2 (net_edges h (edges (net_nodes h n) ! p)) = q) \<or>
       (node1 (net_edges h (edges (net_nodes h n) ! p)) = m \<and>
        axis1 (net_edges h (edges (net_nodes h n) ! p)) = q \<and>
        node2 (net_edges h (edges (net_nodes h n) ! p)) = Some n \<and>
        axis2 (net_edges h (edges (net_nodes h n) ! p)) = p)) \<and>
      shape (tensor (net_nodes h n)) ! p = shape (tensor (net_nodes h m)) ! q)"

text \<open>
  A chain in the store: the sites are different nodes; site \<open>i\<close> has its physical
  (dangling) edge on axis \<open>pp i\<close>, shares its axis \<open>rp i\<close> with axis \<open>lp (i + 1)\<close> of the
  next site, and has no other axis.  These are invariants 1 and 2 of the data model.
\<close>

definition chain_at ::
  "network \<Rightarrow> nat list \<Rightarrow> (nat \<Rightarrow> nat) \<Rightarrow> (nat \<Rightarrow> nat) \<Rightarrow> (nat \<Rightarrow> nat) \<Rightarrow> bool" where
  "chain_at h ns pp lp rp =
     (2 \<le> length ns \<and> distinct ns \<and>
      (\<forall>i < length ns.
         length (shape (tensor (net_nodes h (ns ! i)))) = length (edges (net_nodes h (ns ! i))) \<and>
         length (edges (net_nodes h (ns ! i))) =
           (if i = 0 \<or> i = length ns - 1 then 2 else 3) \<and>
         dangling_slot h (ns ! i) (pp i) \<and>
         (0 < i \<longrightarrow> lp i \<noteq> pp i) \<and>
         (i < length ns - 1 \<longrightarrow> rp i \<noteq> pp i) \<and>
         (0 < i \<and> i < length ns - 1 \<longrightarrow> lp i \<noteq> rp i)) \<and>
      (\<forall>i < length ns - 1. bonded h (ns ! i) (rp i) (ns ! (i + 1)) (lp (i + 1))))"

definition chain_ok :: "mps \<Rightarrow> bool" where
  "chain_ok m =
     (nqudits m = int (length (nodes m)) \<and>
      (\<exists>pp lp rp. chain_at (net m) (nodes m) pp lp rp))"

text \<open>The store with nothing in it.\<close>

definition empty_net :: network where
  "empty_net =
     \<lparr>net_nodes = (\<lambda>_. \<lparr>name = [], tensor = \<lparr>shape = [], elem = (\<lambda>_. 0)\<rparr>, edges = []\<rparr>),
      net_edges = (\<lambda>_. \<lparr>node1 = 0, axis1 = 0, node2 = None, axis2 = 0\<rparr>),
      next_node = 0, next_edge = 0\<rparr>"

text \<open>
  The store \<open>h'\<close> differs from \<open>h\<close> only in the edges on the axes \<open>S\<close>, which are new
  ones: names, tensors and all older edge records are those of \<open>h\<close>.
\<close>

definition net_frame :: "network \<Rightarrow> network \<Rightarrow> (nat \<times> nat) set \<Rightarrow> bool" where
  "net_frame h h' S =
     (next_node h' = next_node h \<and> next_edge h \<le> next_edge h' \<and>
      (\<forall>k. name (net_nodes h' k) = name (net_nodes h k) \<and>
           tensor (net_nodes h' k) = tensor (net_nodes h k) \<and>
           length (edges (net_nodes h' k)) = length (edges (net_nodes h k))) \<and>
      (\<forall>k r. (k, r) \<notin> S \<longrightarrow> edges (net_nodes h' k) ! r = edges (net_nodes h k) ! r) \<and>
      (\<forall>e < next_edge h. net_edges h' e = net_edges h e))"

text \<open>The part of the constructor that makes the nodes, before any edge is connected.\<close>

definition make_nodes :: "int \<Rightarrow> int \<Rightarrow> string \<Rightarrow> (network, nat list) se" where
  "make_nodes n d p =
     bnd (interior_nodes d p (py_range (n - 2))) (\<lambda>mid.
     bnd (Node (zero_state d 1) (p @ str_int 0)) (\<lambda>first.
     bnd (Node (zero_state d 1) (p @ str_int (n - 1))) (\<lambda>lst.
     ret (first # mid @ [lst]))))"


text \<open>The store \<open>h'\<close> has everything \<open>h\<close> has, unchanged, and possibly more.\<close>

definition net_extends :: "network \<Rightarrow> network \<Rightarrow> bool" where
  "net_extends h h' =
     (next_node h \<le> next_node h' \<and> next_edge h \<le> next_edge h' \<and>
      (\<forall>n < next_node h. net_nodes h' n = net_nodes h n) \<and>
      (\<forall>e < next_edge h. net_edges h' e = net_edges h e))"

text \<open>
  The last steps of \<open>get_bond_dimension_of\<close>, once the two nodes have been looked up.
\<close>

definition bond_between :: "mps \<Rightarrow> nat \<Rightarrow> nat \<Rightarrow> error + int" where
  "bond_between m left right =
     (if \<not> check_connected (net m) left right then Inl (ValueError ''Non-connected graph'')
      else case pop (get_shared_edges (net m) left right) of
             Inl e \<Rightarrow> Inl e
           | Inr e \<Rightarrow> Inr (int (dimension (net m) e)))"

text \<open>
  A stand-in for the numerical kernel where a concrete one is needed: an exact
  factorisation \<open>M = U S V\<^sup>\<dagger>\<close> with all singular values 1 (it is not orthogonal).
\<close>

definition trivial_svd :: svd_kernel where
  "trivial_svd m n M =
     (if n \<le> m then (M, (\<lambda>_. 1), (\<lambda>i j. if i = j then 1 else 0))
      else ((\<lambda>i j. if i = j then 1 else 0), (\<lambda>_. 1), M))"

definition no_kwargs :: kwargs where
  "no_kwargs = \<lparr>keep_left_canonical = None, fraction = None, maxsvals = None\<rparr>"

text \<open>Chains to run the methods on: freshly constructed qubit chains in the empty store.\<close>

definition two_qubits :: mps where
  "two_qubits = projr (MPS_init 2 2 ''q'' empty_net)"

definition three_qubits :: mps where
  "three_qubits = projr (MPS_init 3 2 ''q'' empty_net)"

text \<open>
  A node all of whose axes carry a dangling edge of its own or an edge shared with
  another node, as the nodes made through the TensorNetwork interface do.
\<close>

definition slot_ok :: "network \<Rightarrow> nat \<Rightarrow> nat \<Rightarrow> bool" where
  "slot_ok h n p = (dangling_slot h n p \<or> (\<exists>m q. bonded h n p m q))"

definition node_ok :: "network \<Rightarrow> nat \<Rightarrow> bool" where
  "node_ok h n =
     (n < next_node h \<and>
      length (shape (tensor (net_nodes h n))) = length (edges (net_nodes h n)) \<and>
      (\<forall>p < length (edges (net_nodes h n)). slot_ok h n p))"

text \<open>The end \<open>(n, p)\<close> of an edge record, moved to \<open>(new, j)\<close>.\<close>

definition retarget :: "edge \<Rightarrow> nat \<Rightarrow> nat \<Rightarrow> nat \<Rightarrow> nat \<Rightarrow> edge" where
  "retarget E n p new j =
     (if node1 E = n \<and> axis1 E = p then E\<lparr>node1 := new, axis1 := j\<rparr>
      else if node2 E = Some n \<and> axis2 E = p then E\<lparr>node2 := Some new, axis2 := j\<rparr>
      else E)"

text \<open>The axes of node \<open>n\<close> whose edges are not in \<open>gone\<close>.\<close>

definition kept :: "network \<Rightarrow> nat \<Rightarrow> nat list \<Rightarrow> nat list" where
  "kept h n gone =
     filter (\<lambda>p. edges (net_nodes h n) ! p \<notin> set gone) [0..<length (edges (net_nodes h n))]"

text \<open>
  The store \<open>h'\<close> is \<open>h\<close> after the nodes \<open>x\<close> and \<open>y\<close> have been contracted into the new
  node \<open>next_node h\<close>, which takes over the axes \<open>kx\<close> of \<open>x\<close> and then the axes \<open>ky\<close> of \<open>y\<close>
  with what they carry; every other node keeps what it has, and \<open>x\<close> and \<open>y\<close> are left
  with new dangling edges.
\<close>

definition contracted ::
  "network \<Rightarrow> network \<Rightarrow> nat \<Rightarrow> nat \<Rightarrow> nat list \<Rightarrow> nat list \<Rightarrow> bool" where
  "contracted h h' x y kx ky =
     (next_node h' = Suc (next_node h) \<and> next_edge h \<le> next_edge h' \<and>
      edges (net_nodes h' (next_node h)) =
        map ((!) (edges (net_nodes h x))) kx @ map ((!) (edges (net_nodes h y))) ky \<and>
      shape (tensor (net_nodes h' (next_node h))) =
        map ((!) (shape (tensor (net_nodes h x)))) kx @
        map ((!) (shape (tensor (net_nodes h y)))) ky \<and>
      (\<forall>j < length kx.
         (dangling_slot h x (kx ! j) \<longrightarrow> dangling_slot h' (next_node h) j) \<and>
         (\<forall>m q. bonded h x (kx ! j) m q \<longrightarrow> bonded h' (next_node h) j m q)) \<and>
      (\<forall>j < length ky.
         (dangling_slot h y (ky ! j) \<longrightarrow> dangling_slot h' (next_node h) (length kx + j)) \<and>
         (\<forall>m q. bonded h y (ky ! j) m q \<longrightarrow> bonded h' (next_node h) (length kx + j) m q)) \<and>
      (\<forall>m. m \<noteq> x \<and> m \<noteq> y \<and> m < next_node h \<longrightarrow> net_nodes h' m = net_nodes h m) \<and>
      (\<forall>m. m \<noteq> next_node h \<longrightarrow>
         name (net_nodes h' m) = name (net_nodes h m) \<and>
         tensor (net_nodes h' m) = tensor (net_nodes h m)) \<and>
      (\<forall>m q. m \<noteq> x \<and> m \<noteq> y \<longrightarrow> dangling_slot h m q \<longrightarrow> dangling_slot h' m q) \<and>
      (\<forall>m q m' q'. m \<noteq> x \<and> m \<noteq> y \<and> m' \<noteq> x \<and> m' \<noteq> y \<longrightarrow>
         bonded h m q m' q' \<longrightarrow> bonded h' m q m' q') \<and>
      (\<forall>m. node_ok h m \<longrightarrow> node_ok h' m) \<and>
      node_ok h' (next_node h) \<and>
      (\<forall>p < length (edges (net_nodes h x)). dangling_slot h' x p) \<and>
      (\<forall>p < length (edges (net_nodes h y)). dangling_slot h' y p))"

text \<open>The position of axis \<open>p\<close> among the axes of a node that are left when axis \<open>p0\<close> has gone.\<close>

definition axis_after :: "nat \<Rightarrow> nat \<Rightarrow> nat" where
  "axis_after p0 p = (if p < p0 then p else p - 1)"

section \<open>Running the model: basic facts\<close>

lemma bnd_ret [simp]: "bnd (ret v) g = g v"
  by (simp add: bnd_def ret_def)

lemma bnd_Inr: "f s = (Inr v, s') \<Longrightarrow> bnd f g s = g v s'"
  by (simp add: bnd_def)

lemma bnd_Inl: "f s = (Inl e, s') \<Longrightarrow> bnd f g s = (Inl e, s')"
  by (simp add: bnd_def)

lemma bnd_lift_Inr [simp]: "bnd (lift (Inr v)) g = g v"
  by (simp add: bnd_def lift_def)

lemma bnd_lift_Inl [simp]: "bnd (lift (Inl e)) g = throw e"
  by (simp add: bnd_def lift_def throw_def)

lemma bnd_throw [simp]: "bnd (throw e) g = throw e"
  by (simp add: bnd_def throw_def)

lemma ret_apply [simp]: "ret v s = (Inr v, s)" by (simp add: ret_def)
lemma throw_apply [simp]: "throw e s = (Inl e, s)" by (simp add: throw_def)

lemma py_get_nat [simp]: "k < length xs \<Longrightarrow> py_get xs (int k) = Inr (xs ! k)"
  by (simp add: py_get_def)

lemma py_get_neg: "0 < k \<Longrightarrow> k \<le> length xs \<Longrightarrow> py_get xs (- int k) = Inr (xs ! (length xs - k))"
  by (auto simp: py_get_def Let_def nat_diff_distrib of_nat_diff)

lemma upt_add_Suc: "[n..<Suc (n + k)] = n # [Suc n..<Suc (n + k)]"
  by (simp add: upt_conv_Cons)

text \<open>What \<open>Node\<close> does to the store.\<close>

lemma Node_result:
  "Node t nm h = (Inr (next_node h),
     h\<lparr>net_nodes := (net_nodes h)(next_node h := \<lparr>name = nm, tensor = t,
                        edges = map (\<lambda>i. next_edge h + i) [0..<rank t]\<rparr>),
       net_edges := dangling_edges (next_node h) (next_edge h) (rank t) (net_edges h),
       next_node := Suc (next_node h),
       next_edge := next_edge h + rank t\<rparr>)"
  by (simp add: Node_def Let_def)

lemma interior_nodes_spec:
  "\<exists>h'. interior_nodes d p xs h = (Inr [next_node h..<next_node h + length xs], h') \<and>
     next_node h' = next_node h + length xs \<and>
     next_edge h' = next_edge h + 3 * length xs \<and>
     (\<forall>k < length xs. net_nodes h' (next_node h + k) =
        \<lparr>name = p @ str_int (xs ! k + 1), tensor = zero_state d 2,
         edges = [next_edge h + 3 * k, next_edge h + 3 * k + 1, next_edge h + 3 * k + 2]\<rparr>) \<and>
     (\<forall>k < length xs. \<forall>q < 3. net_edges h' (next_edge h + 3 * k + q) =
        \<lparr>node1 = next_node h + k, axis1 = q, node2 = None, axis2 = 0\<rparr>) \<and>
     (\<forall>n < next_node h. net_nodes h' n = net_nodes h n) \<and>
     (\<forall>e < next_edge h. net_edges h' e = net_edges h e)"
proof (induction xs arbitrary: h)
  case Nil
  then show ?case by simp
next
  case (Cons x xs)
  define h1 where "h1 = snd (Node (zero_state d 2) (p @ str_int (x + 1)) h)"
  have N: "Node (zero_state d 2) (p @ str_int (x + 1)) h = (Inr (next_node h), h1)"
    unfolding h1_def by (simp add: Node_result)
  have r: "rank (zero_state d 2) = 3" by (simp add: rank_def zero_state_def)
  have h1n: "next_node h1 = Suc (next_node h)" and h1e: "next_edge h1 = next_edge h + 3"
    unfolding h1_def by (simp_all add: Node_result r)
  have h1node: "net_nodes h1 (next_node h) = \<lparr>name = p @ str_int (x + 1), tensor = zero_state d 2,
         edges = [next_edge h, next_edge h + 1, next_edge h + 2]\<rparr>"
    unfolding h1_def by (simp add: Node_result r upt_rec)
  have h1edge: "\<And>q. q < 3 \<Longrightarrow> net_edges h1 (next_edge h + q) = \<lparr>node1 = next_node h, axis1 = q, node2 = None, axis2 = 0\<rparr>"
    unfolding h1_def by (simp add: Node_result r dangling_edges_def)
  have h1fn: "\<And>n. n < next_node h \<Longrightarrow> net_nodes h1 n = net_nodes h n"
    unfolding h1_def by (simp add: Node_result)
  have h1fe: "\<And>e. e < next_edge h \<Longrightarrow> net_edges h1 e = net_edges h e"
    unfolding h1_def by (simp add: Node_result dangling_edges_def)
  from Cons.IH[of h1] obtain h' where
    I: "interior_nodes d p xs h1 = (Inr [next_node h1..<next_node h1 + length xs], h')"
    and In: "next_node h' = next_node h1 + length xs"
    and Ie: "next_edge h' = next_edge h1 + 3 * length xs"
    and Inode: "\<And>k. k < length xs \<Longrightarrow> net_nodes h' (next_node h1 + k) =
        \<lparr>name = p @ str_int (xs ! k + 1), tensor = zero_state d 2,
         edges = [next_edge h1 + 3 * k, next_edge h1 + 3 * k + 1, next_edge h1 + 3 * k + 2]\<rparr>"
    and Iedge: "\<And>k q. k < length xs \<Longrightarrow> q < 3 \<Longrightarrow> net_edges h' (next_edge h1 + 3 * k + q) =
        \<lparr>node1 = next_node h1 + k, axis1 = q, node2 = None, axis2 = 0\<rparr>"
    and Ifn: "\<And>n. n < next_node h1 \<Longrightarrow> net_nodes h' n = net_nodes h1 n"
    and Ife: "\<And>e. e < next_edge h1 \<Longrightarrow> net_edges h' e = net_edges h1 e"
    by blast
  have res: "interior_nodes d p (x # xs) h = (Inr [next_node h..<next_node h + length (x # xs)], h')"
    by (simp add: bnd_def N I h1n upt_add_Suc del: upt_Suc)
  have nodes: "\<And>k. k < length (x # xs) \<Longrightarrow> net_nodes h' (next_node h + k) =
        \<lparr>name = p @ str_int ((x # xs) ! k + 1), tensor = zero_state d 2,
         edges = [next_edge h + 3 * k, next_edge h + 3 * k + 1, next_edge h + 3 * k + 2]\<rparr>"
  proof -
    fix k assume k: "k < length (x # xs)"
    show "net_nodes h' (next_node h + k) =
        \<lparr>name = p @ str_int ((x # xs) ! k + 1), tensor = zero_state d 2,
         edges = [next_edge h + 3 * k, next_edge h + 3 * k + 1, next_edge h + 3 * k + 2]\<rparr>"
    proof (cases k)
      case 0
      then show ?thesis using Ifn[of "next_node h"] h1node h1n by simp
    next
      case (Suc j)
      then show ?thesis using Inode[of j] k h1n h1e by (simp add: algebra_simps)
    qed
  qed
  have edges: "\<And>k q. k < length (x # xs) \<Longrightarrow> q < 3 \<Longrightarrow> net_edges h' (next_edge h + 3 * k + q) =
        \<lparr>node1 = next_node h + k, axis1 = q, node2 = None, axis2 = 0\<rparr>"
  proof -
    fix k q assume k: "k < length (x # xs)" and q: "q < (3::nat)"
    show "net_edges h' (next_edge h + 3 * k + q) =
        \<lparr>node1 = next_node h + k, axis1 = q, node2 = None, axis2 = 0\<rparr>"
    proof (cases k)
      case 0
      then show ?thesis using Ife[of "next_edge h + q"] h1edge[OF q] h1e q by simp
    next
      case (Suc j)
      then show ?thesis using Iedge[of j q] k q h1n h1e by (simp add: algebra_simps)
    qed
  qed
  show ?case
    apply (rule exI[of _ h'])
    using res nodes edges In Ie h1n h1e Ifn Ife h1fn h1fe
    by (simp add: algebra_simps)
qed

section \<open>The bond ceilings\<close>

lemma py_range_map: "map (\<lambda>i. (d::int) ^ nat (i + 1)) (py_range n) = map (\<lambda>i. d ^ Suc i) [0..<nat n]"
  by (simp add: py_range_def nat_add_distrib o_def)

definition pows :: "int \<Rightarrow> nat \<Rightarrow> int list" where
  "pows d k = map (\<lambda>i. d ^ Suc i) [0..<k]"

lemma pows_Suc: "pows d (Suc k) = pows d k @ [d ^ Suc k]"
  by (simp add: pows_def)

lemma pows_notin: "2 \<le> d \<Longrightarrow> d ^ Suc k \<notin> set (pows d k)"
proof
  assume d: "2 \<le> d" and "d ^ Suc k \<in> set (pows d k)"
  then obtain i where i: "i < k" "d ^ Suc k = d ^ Suc i" by (auto simp: pows_def)
  from d have "d ^ Suc i < d ^ Suc k" using i(1) by (intro power_strict_increasing) auto
  with i(2) show False by (simp del: power_Suc)
qed

lemma max_bond_list_even:
  assumes "2 \<le> d"
  shows "max_bond_list (2 * int (Suc k)) d = Inr (pows d k @ rev (pows d (Suc k)))"
proof -
  have n: "nat ((2 * int (Suc k)) div 2) = Suc k" by simp
  have r: "remove1 (d ^ Suc k) (pows d (Suc k) @ rev (pows d (Suc k))) = pows d k @ rev (pows d (Suc k))"
    using pows_notin[OF assms, of k] by (simp add: pows_Suc remove1_append)
  show ?thesis
    unfolding max_bond_list_def py_range_map n Let_def pows_def[symmetric]
    using r by (simp add: pows_Suc)
qed

lemma max_bond_list_odd:
  "max_bond_list (2 * int k + 1) d = Inr (pows d k @ rev (pows d k))"
proof -
  have n: "nat ((2 * int k + 1) div 2) = k" by simp
  show ?thesis
    unfolding max_bond_list_def py_range_map n Let_def pows_def[symmetric]
    by simp
qed

lemma pows_nth: "i < k \<Longrightarrow> pows d k ! i = d ^ Suc i"
  by (simp add: pows_def)

lemma length_pows: "length (pows d k) = k" by (simp add: pows_def)

lemma min_pow: "2 \<le> (d::int) \<Longrightarrow> a \<le> b \<Longrightarrow> min (d ^ a) (d ^ b) = d ^ a"
  by (simp add: min_def power_increasing)

lemma min_pow2: "2 \<le> (d::int) \<Longrightarrow> b \<le> a \<Longrightarrow> min (d ^ a) (d ^ b) = d ^ b"
  by (simp add: min_def power_increasing)

lemma even_nth:
  assumes "2 \<le> d" "i < 2 * k + 1"
  shows "(pows d k @ rev (pows d (Suc k))) ! i = min (d ^ Suc i) (d ^ (2 * Suc k - i - 1))"
proof (cases "i < k")
  case True
  then have "Suc i \<le> 2 * Suc k - i - 1" by simp
  from min_pow[OF assms(1) this] True show ?thesis
    by (simp add: nth_append length_pows pows_nth del: power_Suc)
next
  case False
  then have "(pows d k @ rev (pows d (Suc k))) ! i = d ^ Suc (Suc k - Suc (i - k))"
    using assms by (simp add: nth_append length_pows rev_nth pows_nth del: power_Suc)
  moreover have "Suc (Suc k - Suc (i - k)) = 2 * Suc k - i - 1" using False assms by simp
  ultimately show ?thesis using False assms by (simp add: min_pow2 del: power_Suc)
qed

lemma odd_nth:
  assumes "2 \<le> d" "i < 2 * k"
  shows "(pows d k @ rev (pows d k)) ! i = min (d ^ Suc i) (d ^ (2 * k + 1 - i - 1))"
proof (cases "i < k")
  case True
  then have "Suc i \<le> 2 * k + 1 - i - 1" by simp
  from min_pow[OF assms(1) this] True show ?thesis
    by (simp add: nth_append length_pows pows_nth del: power_Suc)
next
  case False
  then have "(pows d k @ rev (pows d k)) ! i = d ^ Suc (k - Suc (i - k))"
    using assms by (simp add: nth_append length_pows rev_nth pows_nth del: power_Suc)
  moreover have "Suc (k - Suc (i - k)) = 2 * k + 1 - i - 1" using False assms by simp
  ultimately show ?thesis using False assms by (simp add: min_pow2 del: power_Suc)
qed

lemma max_bond_list_ok:
  assumes n: "2 \<le> n" and d: "2 \<le> d"
  shows "\<exists>mb. max_bond_list n d = Inr mb \<and> length mb = nat (n - 1) \<and>
           (\<forall>i. 0 \<le> i \<and> i < n - 1 \<longrightarrow>
              py_get mb i = Inr (min (d ^ nat (i + 1)) (d ^ nat (n - i - 1))))"
proof (cases "n mod 2 = 0")
  case True
  define k where "k = nat (n div 2) - 1"
  have "0 < n div 2" using n by simp
  then have "int (Suc k) = n div 2" unfolding k_def by simp
  then have k: "n = 2 * int (Suc k)" using True by presburger
  show ?thesis
  proof (intro exI conjI allI impI)
    show "max_bond_list n d = Inr (pows d k @ rev (pows d (Suc k)))"
      unfolding k by (rule max_bond_list_even[OF d])
    show "length (pows d k @ rev (pows d (Suc k))) = nat (n - 1)"
      by (simp add: length_pows k)
    fix i assume i: "0 \<le> i \<and> i < n - 1"
    then have lt: "nat i < 2 * k + 1" using k by auto
    have e1: "Suc (nat i) = nat (i + 1)" using i by linarith
    have e2: "2 * Suc k - nat i - 1 = nat (n - i - 1)" using i k by linarith
    from even_nth[OF d lt] i
    show "py_get (pows d k @ rev (pows d (Suc k))) i = Inr (min (d ^ nat (i + 1)) (d ^ nat (n - i - 1)))"
      unfolding py_get_def Let_def e1 e2
      by (simp add: length_pows k del: power_Suc)
  qed
next
  case False
  define k where "k = nat (n div 2)"
  have "0 \<le> n div 2" using n by simp
  then have "int k = n div 2" unfolding k_def by simp
  then have k: "n = 2 * int k + 1" using False by presburger
  show ?thesis
  proof (intro exI conjI allI impI)
    show "max_bond_list n d = Inr (pows d k @ rev (pows d k))"
      unfolding k by (rule max_bond_list_odd)
    show "length (pows d k @ rev (pows d k)) = nat (n - 1)"
      by (simp add: length_pows k)
    fix i assume i: "0 \<le> i \<and> i < n - 1"
    then have lt: "nat i < 2 * k" using k by auto
    have e1: "Suc (nat i) = nat (i + 1)" using i by linarith
    have e2: "2 * k + 1 - nat i - 1 = nat (n - i - 1)" using i k by linarith
    from odd_nth[OF d lt] i
    show "py_get (pows d k @ rev (pows d k)) i = Inr (min (d ^ nat (i + 1)) (d ^ nat (n - i - 1)))"
      unfolding py_get_def Let_def e1 e2
      by (simp add: length_pows k del: power_Suc)
  qed
qed

section \<open>Axes, edges and frames\<close>

lemma dangling_slot_frame:
  "net_frame h h' S \<Longrightarrow> (k, r) \<notin> S \<Longrightarrow> dangling_slot h k r \<Longrightarrow> dangling_slot h' k r"
  unfolding net_frame_def dangling_slot_def by auto

lemma bonded_frame:
  "net_frame h h' S \<Longrightarrow> (k, r) \<notin> S \<Longrightarrow> (k', r') \<notin> S \<Longrightarrow> bonded h k r k' r' \<Longrightarrow> bonded h' k r k' r'"
  unfolding net_frame_def bonded_def by auto

lemma net_frame_refl: "net_frame h h {}"
  by (simp add: net_frame_def)

lemma net_frame_trans:
  "net_frame h h' S \<Longrightarrow> net_frame h' h'' T \<Longrightarrow> net_frame h h'' (S \<union> T)"
  unfolding net_frame_def by auto

lemma net_frame_mono: "net_frame h h' S \<Longrightarrow> S \<subseteq> T \<Longrightarrow> net_frame h h' T"
  unfolding net_frame_def by auto

lemma bonded_sym: "bonded h n p m q \<Longrightarrow> bonded h m q n p"
  unfolding bonded_def by auto

lemma connect_spec:
  assumes a: "dangling_slot h n p" and b: "dangling_slot h m q" and nm: "n \<noteq> m"
    and dim: "shape (tensor (net_nodes h n)) ! p = shape (tensor (net_nodes h m)) ! q"
  shows "\<exists>h'. connect (edges (net_nodes h n) ! p) (edges (net_nodes h m) ! q) h
               = (Inr (next_edge h), h') \<and>
              bonded h' n p m q \<and> net_frame h h' {(n, p), (m, q)} \<and>
              node1 (net_edges h' (next_edge h)) = n \<and>
              node2 (net_edges h' (next_edge h)) = Some m \<and>
              edges (net_nodes h' n) ! p = next_edge h"
proof -
  let ?e1 = "edges (net_nodes h n) ! p" and ?e2 = "edges (net_nodes h m) ! q"
  have d1: "is_dangling h ?e1" "is_dangling h ?e2"
    using a b by (auto simp: dangling_slot_def is_dangling_def)
  have ne: "?e1 \<noteq> ?e2" using a b nm by (auto simp: dangling_slot_def)
  have dm: "dimension h ?e1 = dimension h ?e2"
    using a b dim by (auto simp: dangling_slot_def dimension_def)
  have n1: "node1 (net_edges h ?e1) = n" "axis1 (net_edges h ?e1) = p"
       "node1 (net_edges h ?e2) = m" "axis1 (net_edges h ?e2) = q"
    using a b by (auto simp: dangling_slot_def)
  have lt: "?e1 < next_edge h" "?e2 < next_edge h" "n < next_node h" "m < next_node h"
      "p < length (edges (net_nodes h n))" "q < length (edges (net_nodes h m))"
    using a b by (auto simp: dangling_slot_def)
  show ?thesis
    unfolding connect_def
    apply (simp add: d1 ne dm Let_def n1)
    apply (intro conjI)
    subgoal using lt nm dim by (auto simp: bonded_def set_edge_def)
    subgoal using lt nm by (auto simp: net_frame_def set_edge_def nth_list_update)
    subgoal using lt nm by (auto simp: set_edge_def)
    done
qed

section \<open>Construction\<close>

lemma bnd_step: "f s = (Inr v, s') \<Longrightarrow> g v s' = r \<Longrightarrow> bnd f g s = r"
  by (simp add: bnd_def)

lemma connect_nodes_spec:
  assumes i: "py_get ns i = Inr x" and j: "py_get ns j = Inr y"
    and a: "dangling_slot h x a" and b: "dangling_slot h y b" and xy: "x \<noteq> y"
    and dim: "shape (tensor (net_nodes h x)) ! a = shape (tensor (net_nodes h y)) ! b"
  shows "\<exists>h'. connect_nodes ns i a j b h = (Inr (), h') \<and>
              bonded h' x a y b \<and> net_frame h h' {(x, a), (y, b)}"
proof -
  from connect_spec[OF a b xy dim] obtain h' where
    c: "connect (edges (net_nodes h x) ! a) (edges (net_nodes h y) ! b) h = (Inr (next_edge h), h')"
    and r: "bonded h' x a y b" "net_frame h h' {(x, a), (y, b)}" by blast
  have la: "a < length (edges (net_nodes h x))" and lb: "b < length (edges (net_nodes h y))"
    using a b by (auto simp: dangling_slot_def)
  have "connect_nodes ns i a j b h = (Inr (), h')"
    unfolding connect_nodes_def
    by (simp add: i j bnd_def lift_def get_edge_of_def get_edge_def la lb c)
  with r show ?thesis by blast
qed

lemma connect_middle_spec:
  assumes "distinct ns" and "0 < len \<longrightarrow> c + len + 3 \<le> length ns"
    and "\<forall>j. 1 \<le> j \<and> j + 1 < length ns \<longrightarrow>
           shape (tensor (net_nodes h (ns ! j))) ! 1 = 1 \<and>
           shape (tensor (net_nodes h (ns ! j))) ! 2 = 1"
    and "\<forall>j. 1 + c \<le> j \<and> j + 1 < length ns \<longrightarrow> dangling_slot h (ns ! j) 2"
    and "\<forall>j. 2 + c \<le> j \<and> j + 1 < length ns \<longrightarrow> dangling_slot h (ns ! j) 1"
  shows "\<exists>h'. connect_middle ns (map (\<lambda>k. 1 + int k) [c..<c + len]) h = (Inr (), h') \<and>
           net_frame h h' ({(ns ! j, 2) | j. c + 1 \<le> j \<and> j < c + 1 + len} \<union>
                            {(ns ! (j + 1), 1) | j. c + 1 \<le> j \<and> j < c + 1 + len}) \<and>
           (\<forall>j. c + 1 \<le> j \<and> j < c + 1 + len \<longrightarrow> bonded h' (ns ! j) 2 (ns ! (j + 1)) 1)"
  using assms
proof (induction len arbitrary: c h)
  case 0
  then show ?case by (auto simp: net_frame_def)
next
  case (Suc len)
  let ?x = "ns ! (c + 1)" and ?y = "ns ! (c + 2)"
  have g1: "py_get ns (1 + int c) = Inr ?x" and g2: "py_get ns (1 + int c + 1) = Inr ?y"
    using Suc.prems(2) by (auto simp: py_get_def Let_def nat_add_distrib)
  have a: "dangling_slot h ?x 2" using Suc.prems(2,4) by simp
  have b: "dangling_slot h ?y 1" using Suc.prems(2,5) by simp
  have xy: "?x \<noteq> ?y" using Suc.prems(1,2) by (simp add: nth_eq_iff_index_eq)
  have dim: "shape (tensor (net_nodes h ?x)) ! 2 = shape (tensor (net_nodes h ?y)) ! 1"
    using Suc.prems(2,3) by simp
  from connect_nodes_spec[OF g1 g2 a b xy dim] obtain h1 where
    c1: "connect_nodes ns (1 + int c) 2 (1 + int c + 1) 1 h = (Inr (), h1)"
    and b1: "bonded h1 ?x 2 ?y 1" and f1: "net_frame h h1 {(?x, 2), (?y, 1)}" by blast
  have p3: "\<forall>j. 1 \<le> j \<and> j + 1 < length ns \<longrightarrow>
           shape (tensor (net_nodes h1 (ns ! j))) ! 1 = 1 \<and>
           shape (tensor (net_nodes h1 (ns ! j))) ! 2 = 1"
    using Suc.prems(3) f1 by (simp add: net_frame_def)
  have neq: "\<And>j. j < length ns \<Longrightarrow> j \<noteq> c + 1 \<Longrightarrow> ns ! j \<noteq> ?x"
       "\<And>j. j < length ns \<Longrightarrow> j \<noteq> c + 2 \<Longrightarrow> ns ! j \<noteq> ?y"
    using Suc.prems(1,2) by (auto simp: nth_eq_iff_index_eq)
  have p4: "\<forall>j. 1 + Suc c \<le> j \<and> j + 1 < length ns \<longrightarrow> dangling_slot h1 (ns ! j) 2"
  proof (intro allI impI)
    fix j assume j: "1 + Suc c \<le> j \<and> j + 1 < length ns"
    then have "dangling_slot h (ns ! j) 2" using Suc.prems(4) by simp
    moreover have "(ns ! j, 2::nat) \<notin> {(?x, 2), (?y, 1)}" using neq(1)[of j] j by simp
    ultimately show "dangling_slot h1 (ns ! j) 2" by (rule dangling_slot_frame[OF f1, rotated])
  qed
  have p5: "\<forall>j. 2 + Suc c \<le> j \<and> j + 1 < length ns \<longrightarrow> dangling_slot h1 (ns ! j) 1"
  proof (intro allI impI)
    fix j assume j: "2 + Suc c \<le> j \<and> j + 1 < length ns"
    then have "dangling_slot h (ns ! j) 1" using Suc.prems(5) by simp
    moreover have "(ns ! j, 1::nat) \<notin> {(?x, 2), (?y, 1)}" using neq(2)[of j] j by simp
    ultimately show "dangling_slot h1 (ns ! j) 1" by (rule dangling_slot_frame[OF f1, rotated])
  qed
  have len: "0 < len \<longrightarrow> Suc c + len + 3 \<le> length ns" using Suc.prems(2) by simp
  from Suc.IH[OF Suc.prems(1) len p3 p4 p5] obtain h' where
    c2: "connect_middle ns (map (\<lambda>k. 1 + int k) [Suc c..<Suc c + len]) h1 = (Inr (), h')"
    and f2: "net_frame h1 h' ({(ns ! j, 2) | j. Suc c + 1 \<le> j \<and> j < Suc c + 1 + len} \<union>
                            {(ns ! (j + 1), 1) | j. Suc c + 1 \<le> j \<and> j < Suc c + 1 + len})"
    and b2: "\<forall>j. Suc c + 1 \<le> j \<and> j < Suc c + 1 + len \<longrightarrow> bonded h' (ns ! j) 2 (ns ! (j + 1)) 1"
    by blast
  have run: "connect_middle ns (map (\<lambda>k. 1 + int k) [c..<c + Suc len]) h = (Inr (), h')"
  proof -
    have eq: "[c..<c + Suc len] = c # [Suc c..<Suc c + len]" by (simp add: upt_conv_Cons)
    show ?thesis
      unfolding eq list.map connect_middle.simps
      by (rule bnd_step, rule c1, rule c2)
  qed
  have fr: "net_frame h h' ({(ns ! j, 2) | j. c + 1 \<le> j \<and> j < c + 1 + Suc len} \<union>
                            {(ns ! (j + 1), 1) | j. c + 1 \<le> j \<and> j < c + 1 + Suc len})"
  proof (rule net_frame_mono[OF net_frame_trans[OF f1 f2]])
    show "{(?x, 2), (?y, 1)} \<union>
       ({(ns ! j, 2) |j. Suc c + 1 \<le> j \<and> j < Suc c + 1 + len} \<union>
        {(ns ! (j + 1), 1) |j. Suc c + 1 \<le> j \<and> j < Suc c + 1 + len})
       \<subseteq> {(ns ! j, 2) |j. c + 1 \<le> j \<and> j < c + 1 + Suc len} \<union>
          {(ns ! (j + 1), 1) |j. c + 1 \<le> j \<and> j < c + 1 + Suc len}"
    proof -
      have "(?x, 2::nat) \<in> {(ns ! j, 2) |j. c + 1 \<le> j \<and> j < c + 1 + Suc len}" by auto
      moreover have "(?y, 1::nat) \<in> {(ns ! (j + 1), 1) |j. c + 1 \<le> j \<and> j < c + 1 + Suc len}"
        by (rule CollectI, rule exI[of _ "c + 1"]) simp
      moreover have "{(ns ! j, 2) |j. Suc c + 1 \<le> j \<and> j < Suc c + 1 + len}
          \<subseteq> {(ns ! j, 2) |j. c + 1 \<le> j \<and> j < c + 1 + Suc len}" by auto
      moreover have "{(ns ! (j + 1), 1) |j. Suc c + 1 \<le> j \<and> j < Suc c + 1 + len}
          \<subseteq> {(ns ! (j + 1), 1) |j. c + 1 \<le> j \<and> j < c + 1 + Suc len}" by auto
      ultimately show ?thesis by blast
    qed
  qed
  have bd: "\<forall>j. c + 1 \<le> j \<and> j < c + 1 + Suc len \<longrightarrow> bonded h' (ns ! j) 2 (ns ! (j + 1)) 1"
  proof (intro allI impI)
    fix j assume j: "c + 1 \<le> j \<and> j < c + 1 + Suc len"
    show "bonded h' (ns ! j) 2 (ns ! (j + 1)) 1"
    proof (cases "j = c + 1")
      case True
      have n1: "(?x, 2::nat) \<notin> ({(ns ! j, 2) | j. Suc c + 1 \<le> j \<and> j < Suc c + 1 + len} \<union>
                            {(ns ! (j + 1), 1) | j. Suc c + 1 \<le> j \<and> j < Suc c + 1 + len})"
        using Suc.prems(1,2) by (auto simp: nth_eq_iff_index_eq)
      have n2: "(?y, 1::nat) \<notin> ({(ns ! j, 2) | j. Suc c + 1 \<le> j \<and> j < Suc c + 1 + len} \<union>
                            {(ns ! (j + 1), 1) | j. Suc c + 1 \<le> j \<and> j < Suc c + 1 + len})"
        using Suc.prems(1,2) by (auto simp: nth_eq_iff_index_eq)
      from bonded_frame[OF f2 n1 n2 b1] True show ?thesis by (simp add: add.commute)
    next
      case False
      then show ?thesis using b2 j by simp
    qed
  qed
  show ?case using run fr bd by blast
qed

lemma bnd_assoc: "bnd (bnd f g) k = bnd f (\<lambda>v. bnd (g v) k)"
  by (auto simp: bnd_def fun_eq_iff split: prod.splits sum.splits)

lemma rank_zero_state [simp]: "rank (zero_state d r) = Suc r"
  by (simp add: rank_def zero_state_def)

lemma build_nodes_alt:
  "build_nodes n d p =
     bnd (make_nodes n d p) (\<lambda>ns.
     bnd (connect_middle ns (py_range2 1 (n - 2))) (\<lambda>_.
     bnd (if n < 3 then connect_nodes ns 0 1 1 1
          else bnd (connect_nodes ns 0 1 1 1) (\<lambda>_. connect_nodes ns (- 1) 1 (- 2) 2)) (\<lambda>_.
     ret ns)))"
  unfolding build_nodes_def make_nodes_def by (simp add: bnd_assoc Let_def)

lemma make_nodes_spec:
  assumes n: "2 \<le> n"
  shows "\<exists>ns h3. make_nodes n d p h = (Inr ns, h3) \<and> length ns = nat n \<and> distinct ns \<and>
     (\<forall>i < nat n.
        name (net_nodes h3 (ns ! i)) = p @ str_int (int i) \<and>
        tensor (net_nodes h3 (ns ! i)) = zero_state d (if i = 0 \<or> i = nat n - 1 then 1 else 2) \<and>
        length (edges (net_nodes h3 (ns ! i))) = (if i = 0 \<or> i = nat n - 1 then 2 else 3) \<and>
        (\<forall>r < length (edges (net_nodes h3 (ns ! i))). dangling_slot h3 (ns ! i) r))"
proof -
  define K where "K = nat (n - 2)"
  have lenK: "length (py_range (n - 2)) = K" by (simp add: py_range_def K_def)
  let ?n0 = "next_node h" and ?e0 = "next_edge h"
  from interior_nodes_spec[of d p "py_range (n - 2)" h] obtain h1 where
    I: "interior_nodes d p (py_range (n - 2)) h = (Inr [?n0..<?n0 + K], h1)"
    and In: "next_node h1 = ?n0 + K" and Ie: "next_edge h1 = ?e0 + 3 * K"
    and Inode: "\<And>k. k < K \<Longrightarrow> net_nodes h1 (?n0 + k) =
        \<lparr>name = p @ str_int (py_range (n - 2) ! k + 1), tensor = zero_state d 2,
         edges = [?e0 + 3 * k, ?e0 + 3 * k + 1, ?e0 + 3 * k + 2]\<rparr>"
    and Iedge: "\<And>k q. k < K \<Longrightarrow> q < 3 \<Longrightarrow> net_edges h1 (?e0 + 3 * k + q) =
        \<lparr>node1 = ?n0 + k, axis1 = q, node2 = None, axis2 = 0\<rparr>"
    unfolding lenK by blast
  define h2 where "h2 = snd (Node (zero_state d 1) (p @ str_int 0) h1)"
  define h3 where "h3 = snd (Node (zero_state d 1) (p @ str_int (n - 1)) h2)"
  have r1: "rank (zero_state d 1) = 2" by simp
  have N2: "Node (zero_state d 1) (p @ str_int 0) h1 = (Inr (?n0 + K), h2)"
    unfolding h2_def by (simp add: Node_result In)
  have h2n: "next_node h2 = ?n0 + K + 1" and h2e: "next_edge h2 = ?e0 + 3 * K + 2"
    unfolding h2_def by (simp_all add: Node_result In Ie r1)
  have N3: "Node (zero_state d 1) (p @ str_int (n - 1)) h2 = (Inr (?n0 + K + 1), h3)"
    unfolding h3_def by (simp add: Node_result h2n)
  define ns where "ns = (?n0 + K) # [?n0..<?n0 + K] @ [?n0 + K + 1]"
  have run: "make_nodes n d p h = (Inr ns, h3)"
    unfolding make_nodes_def ns_def
    by (rule bnd_step, rule I, rule bnd_step, rule N2, rule bnd_step, rule N3) simp
  have len: "length ns = nat n" using n by (simp add: ns_def K_def)
  have dist: "distinct ns" by (auto simp: ns_def)
  have ns0: "ns ! 0 = ?n0 + K" by (simp add: ns_def)
  have nsi: "\<And>i. 1 \<le> i \<Longrightarrow> i \<le> K \<Longrightarrow> ns ! i = ?n0 + (i - 1)"
    by (auto simp: ns_def nth_Cons nth_append split: nat.splits)
  have nsl: "ns ! (K + 1) = ?n0 + K + 1"
    by (simp add: ns_def nth_append)
  have h3n: "next_node h3 = ?n0 + K + 2" and h3e: "next_edge h3 = ?e0 + 3 * K + 4"
    unfolding h3_def by (simp_all add: Node_result h2n h2e r1)
  have node_mid: "\<And>k. k < K \<Longrightarrow> net_nodes h3 (?n0 + k) =
        \<lparr>name = p @ str_int (int k + 1), tensor = zero_state d 2,
         edges = [?e0 + 3 * k, ?e0 + 3 * k + 1, ?e0 + 3 * k + 2]\<rparr>"
    unfolding h3_def h2_def using Inode
    by (simp add: Node_result In r1 py_range_def K_def)
  have edge_mid: "\<And>k q. k < K \<Longrightarrow> q < 3 \<Longrightarrow> net_edges h3 (?e0 + 3 * k + q) =
        \<lparr>node1 = ?n0 + k, axis1 = q, node2 = None, axis2 = 0\<rparr>"
    unfolding h3_def h2_def using Iedge
    by (simp add: Node_result In Ie r1 dangling_edges_def)
  have node_first: "net_nodes h3 (?n0 + K) =
        \<lparr>name = p @ str_int 0, tensor = zero_state d 1,
         edges = [?e0 + 3 * K, ?e0 + 3 * K + 1]\<rparr>"
    unfolding h3_def h2_def
    by (simp add: Node_result In Ie r1 upt_rec)
  have edge_first: "\<And>q. q < 2 \<Longrightarrow> net_edges h3 (?e0 + 3 * K + q) =
        \<lparr>node1 = ?n0 + K, axis1 = q, node2 = None, axis2 = 0\<rparr>"
    unfolding h3_def h2_def
    by (simp add: Node_result In Ie r1 dangling_edges_def)
  have node_last: "net_nodes h3 (?n0 + K + 1) =
        \<lparr>name = p @ str_int (n - 1), tensor = zero_state d 1,
         edges = [?e0 + 3 * K + 2, ?e0 + 3 * K + 3]\<rparr>"
    unfolding h3_def
    by (simp add: Node_result h2n h2e r1 upt_rec)
  have edge_last: "\<And>q. q < 2 \<Longrightarrow> net_edges h3 (?e0 + 3 * K + 2 + q) =
        \<lparr>node1 = ?n0 + K + 1, axis1 = q, node2 = None, axis2 = 0\<rparr>"
    unfolding h3_def
    by (simp add: Node_result h2n h2e r1 dangling_edges_def)
  have site: "\<And>i. i < nat n \<Longrightarrow>
        name (net_nodes h3 (ns ! i)) = p @ str_int (int i) \<and>
        tensor (net_nodes h3 (ns ! i)) = zero_state d (if i = 0 \<or> i = nat n - 1 then 1 else 2) \<and>
        length (edges (net_nodes h3 (ns ! i))) = (if i = 0 \<or> i = nat n - 1 then 2 else 3) \<and>
        (\<forall>r < length (edges (net_nodes h3 (ns ! i))). dangling_slot h3 (ns ! i) r)"
  proof -
    fix i assume i: "i < nat n"
    have nK: "nat n = K + 2" using n by (simp add: K_def)
    consider "i = 0" | "1 \<le> i \<and> i \<le> K" | "i = K + 1" using i nK by linarith
    then show "name (net_nodes h3 (ns ! i)) = p @ str_int (int i) \<and>
        tensor (net_nodes h3 (ns ! i)) = zero_state d (if i = 0 \<or> i = nat n - 1 then 1 else 2) \<and>
        length (edges (net_nodes h3 (ns ! i))) = (if i = 0 \<or> i = nat n - 1 then 2 else 3) \<and>
        (\<forall>r < length (edges (net_nodes h3 (ns ! i))). dangling_slot h3 (ns ! i) r)"
    proof cases
      case 1
      note ef = edge_first[of 0, simplified] edge_first[of 1, simplified]
      from 1 show ?thesis
        by (auto simp: ns0 node_first dangling_slot_def h3n h3e nth_Cons ef split: nat.splits)
    next
      case 2
      then obtain j where j: "i = Suc j" "j < K" by (cases i) auto
      note em = edge_mid[OF j(2), of 0, simplified] edge_mid[OF j(2), of 1, simplified]
                edge_mid[OF j(2), of 2, simplified]
      have nd: "ns ! Suc j = ?n0 + j" using nsi[of "Suc j"] j by simp
      have ii: "int j + 1 = int (Suc j)" by simp
      show ?thesis
        unfolding j(1) nd node_mid[OF j(2)] ii
        using j(2) by (auto simp: dangling_slot_def node_mid[OF j(2)] h3n h3e nth_Cons em nK split: nat.splits)
    next
      case 3
      have nn: "n - 1 = 1 + int K" using n by (simp add: K_def)
      have e3: "?e0 + 3 * K + 2 + 1 = ?e0 + 3 * K + 3" by simp
      note el = edge_last[of 0, simplified] edge_last[of 1, unfolded e3, simplified]
      from 3 show ?thesis
        by (auto simp: nsl[simplified] node_last[simplified] nn dangling_slot_def h3n h3e
              nth_Cons el nK split: nat.splits)
    qed
  qed
  show ?thesis using run len dist site by blast
qed

lemma zero_state_shape_virtual:
  "0 < r \<Longrightarrow> r \<le> k \<Longrightarrow> shape (zero_state d k) ! r = 1"
  by (cases r) (auto simp: zero_state_def)

lemma build_nodes_spec:
  assumes n: "2 \<le> n"
  shows "\<exists>ns h'. build_nodes n d p h = (Inr ns, h') \<and> length ns = nat n \<and>
     chain_at h' ns (\<lambda>i. 0) (\<lambda>i. 1) (\<lambda>i. if i = 0 then 1 else 2) \<and>
     (\<forall>i < nat n.
        name (net_nodes h' (ns ! i)) = p @ str_int (int i) \<and>
        tensor (net_nodes h' (ns ! i)) = zero_state d (if i = 0 \<or> i = nat n - 1 then 1 else 2))"
proof -
  define N where "N = nat n"
  have N2: "2 \<le> N" using n by (simp add: N_def)
  from make_nodes_spec[OF n, of d p h] obtain ns h3 where
    mk: "make_nodes n d p h = (Inr ns, h3)" and len: "length ns = N" and dist: "distinct ns"
    and nm3: "\<And>i. i < N \<Longrightarrow> name (net_nodes h3 (ns ! i)) = p @ str_int (int i)"
    and tn3: "\<And>i. i < N \<Longrightarrow> tensor (net_nodes h3 (ns ! i)) = zero_state d (if i = 0 \<or> i = N - 1 then 1 else 2)"
    and le3: "\<And>i. i < N \<Longrightarrow> length (edges (net_nodes h3 (ns ! i))) = (if i = 0 \<or> i = N - 1 then 2 else 3)"
    and ds3: "\<And>i r. i < N \<Longrightarrow> r < length (edges (net_nodes h3 (ns ! i))) \<Longrightarrow> dangling_slot h3 (ns ! i) r"
    unfolding N_def by blast
  have neq: "\<And>i j. i < N \<Longrightarrow> j < N \<Longrightarrow> i \<noteq> j \<Longrightarrow> ns ! i \<noteq> ns ! j"
    using dist len by (simp add: nth_eq_iff_index_eq)
  define len_mid where "len_mid = nat (n - 3)"
  have pr: "py_range2 1 (n - 2) = map (\<lambda>k. 1 + int k) [0..<0 + len_mid]"
    by (simp add: py_range2_def len_mid_def)
  have lm: "0 < len_mid \<longrightarrow> 0 + len_mid + 3 \<le> length ns"
    using n unfolding len len_mid_def N_def by auto
  have lmN: "len_mid + 3 = N \<or> (len_mid = 0 \<and> N = 2)"
    using n by (auto simp: len_mid_def N_def)
  have a3: "\<forall>j. 1 \<le> j \<and> j + 1 < length ns \<longrightarrow>
           shape (tensor (net_nodes h3 (ns ! j))) ! 1 = 1 \<and>
           shape (tensor (net_nodes h3 (ns ! j))) ! 2 = 1"
    using tn3 len by (auto simp: zero_state_shape_virtual)
  have a4: "\<forall>j. 1 + 0 \<le> j \<and> j + 1 < length ns \<longrightarrow> dangling_slot h3 (ns ! j) 2"
    using ds3 le3 len by auto
  have a5: "\<forall>j. 2 + 0 \<le> j \<and> j + 1 < length ns \<longrightarrow> dangling_slot h3 (ns ! j) 1"
    using ds3 le3 len by auto
  define S4 where "S4 = {(ns ! j, 2::nat) | j. 0 + 1 \<le> j \<and> j < 0 + 1 + len_mid} \<union>
                       {(ns ! (j + 1), 1::nat) | j. 0 + 1 \<le> j \<and> j < 0 + 1 + len_mid}"
  from connect_middle_spec[OF dist lm a3 a4 a5] obtain h4 where
    c4: "connect_middle ns (py_range2 1 (n - 2)) h3 = (Inr (), h4)"
    and f4: "net_frame h3 h4 S4"
    and b4: "\<And>j. 1 \<le> j \<Longrightarrow> j < 1 + len_mid \<Longrightarrow> bonded h4 (ns ! j) 2 (ns ! (j + 1)) 1"
    unfolding pr S4_def by auto
  have inS4: "\<And>i r. i < N \<Longrightarrow> (ns ! i, r) \<in> S4 \<longleftrightarrow>
        (r = 2 \<and> 1 \<le> i \<and> i \<le> len_mid) \<or> (r = 1 \<and> 2 \<le> i \<and> i \<le> len_mid + 1)"
  proof -
    fix i r assume i: "i < N"
    have e: "\<And>j. 1 \<le> j \<Longrightarrow> j < 2 + len_mid \<Longrightarrow> 0 < len_mid \<Longrightarrow> (ns ! i = ns ! j) = (i = j)"
      using lmN i dist len by (auto simp: nth_eq_iff_index_eq)
    have m: "(ns ! i, r) \<in> S4 \<longleftrightarrow>
        (r = 2 \<and> (\<exists>j. 1 \<le> j \<and> j < 1 + len_mid \<and> ns ! i = ns ! j)) \<or>
        (r = 1 \<and> (\<exists>j. 1 \<le> j \<and> j < 1 + len_mid \<and> ns ! i = ns ! (j + 1)))"
      unfolding S4_def by auto
    have x1: "(\<exists>j. 1 \<le> j \<and> j < 1 + len_mid \<and> ns ! i = ns ! j) \<longleftrightarrow> (1 \<le> i \<and> i \<le> len_mid)"
    proof
      assume "\<exists>j. 1 \<le> j \<and> j < 1 + len_mid \<and> ns ! i = ns ! j"
      then obtain j where j: "1 \<le> j" "j < 1 + len_mid" "ns ! i = ns ! j" by blast
      then have "i = j" using e[of j] by simp
      with j show "1 \<le> i \<and> i \<le> len_mid" by simp
    next
      assume "1 \<le> i \<and> i \<le> len_mid"
      then show "\<exists>j. 1 \<le> j \<and> j < 1 + len_mid \<and> ns ! i = ns ! j"
        by (intro exI[of _ i]) auto
    qed
    have x2: "(\<exists>j. 1 \<le> j \<and> j < 1 + len_mid \<and> ns ! i = ns ! (j + 1)) \<longleftrightarrow> (2 \<le> i \<and> i \<le> len_mid + 1)"
    proof
      assume "\<exists>j. 1 \<le> j \<and> j < 1 + len_mid \<and> ns ! i = ns ! (j + 1)"
      then obtain j where j: "1 \<le> j" "j < 1 + len_mid" "ns ! i = ns ! (j + 1)" by blast
      then have "i = j + 1" using e[of "j + 1"] by simp
      with j show "2 \<le> i \<and> i \<le> len_mid + 1" by simp
    next
      assume "2 \<le> i \<and> i \<le> len_mid + 1"
      then show "\<exists>j. 1 \<le> j \<and> j < 1 + len_mid \<and> ns ! i = ns ! (j + 1)"
        by (intro exI[of _ "i - 1"]) auto
    qed
    show "(ns ! i, r) \<in> S4 \<longleftrightarrow>
        (r = 2 \<and> 1 \<le> i \<and> i \<le> len_mid) \<or> (r = 1 \<and> 2 \<le> i \<and> i \<le> len_mid + 1)"
      unfolding m x1 x2 by simp
  qed
  have tn4: "\<And>k. tensor (net_nodes h4 k) = tensor (net_nodes h3 k)"
    and le4: "\<And>k. length (edges (net_nodes h4 k)) = length (edges (net_nodes h3 k))"
    and nm4: "\<And>k. name (net_nodes h4 k) = name (net_nodes h3 k)"
    using f4 by (auto simp: net_frame_def)
  have d01: "dangling_slot h4 (ns ! 0) 1"
    using dangling_slot_frame[OF f4, of "ns ! 0" 1] inS4[of 0 1] ds3[of 0 1] le3[of 0] N2 by simp
  have d11: "dangling_slot h4 (ns ! 1) 1"
    using dangling_slot_frame[OF f4, of "ns ! 1" 1] inS4[of 1 1] ds3[of 1 1] le3[of 1] N2 by simp
  have g0: "py_get ns 0 = Inr (ns ! 0)" and g1: "py_get ns 1 = Inr (ns ! 1)"
    using N2 len by (auto simp: py_get_def)
  have dim5: "shape (tensor (net_nodes h4 (ns ! 0))) ! 1 = shape (tensor (net_nodes h4 (ns ! 1))) ! 1"
    using tn3[of 0] tn3[of 1] N2 by (simp add: tn4 zero_state_shape_virtual)
  from connect_nodes_spec[OF g0 g1 d01 d11 neq[of 0 1] dim5] N2 obtain h5 where
    c5: "connect_nodes ns 0 1 1 1 h4 = (Inr (), h5)"
    and b5: "bonded h5 (ns ! 0) 1 (ns ! 1) 1"
    and f5: "net_frame h4 h5 {(ns ! 0, 1), (ns ! 1, 1)}" by auto
  have tn5: "\<And>k. tensor (net_nodes h5 k) = tensor (net_nodes h3 k)"
    and le5: "\<And>k. length (edges (net_nodes h5 k)) = length (edges (net_nodes h3 k))"
    and nm5: "\<And>k. name (net_nodes h5 k) = name (net_nodes h3 k)"
    using f5 tn4 le4 nm4 by (auto simp: net_frame_def)
  have shape_len: "\<And>i. i < N \<Longrightarrow> length (shape (tensor (net_nodes h3 (ns ! i)))) =
        length (edges (net_nodes h3 (ns ! i)))"
    using tn3 le3 by (auto simp: zero_state_def)
  have ds4_0: "\<And>i. i < N \<Longrightarrow> dangling_slot h4 (ns ! i) 0"
    using dangling_slot_frame[OF f4] inS4 ds3 le3 by (metis (full_types) zero_neq_numeral zero_neq_one zero_less_numeral)
  have ds5_0: "\<And>i. i < N \<Longrightarrow> dangling_slot h5 (ns ! i) 0"
    using dangling_slot_frame[OF f5] ds4_0 by simp
  show ?thesis
  proof (cases "n < 3")
    case True
    then have N: "N = 2" using n by (simp add: N_def)
    have run: "build_nodes n d p h = (Inr ns, h5)"
      unfolding build_nodes_alt
      apply (rule bnd_step, rule mk, rule bnd_step, rule c4)
      apply (simp only: True if_True)
      apply (rule bnd_step, rule c5)
      apply simp
      done
    have ch: "chain_at h5 ns (\<lambda>i. 0) (\<lambda>i. 1) (\<lambda>i. if i = 0 then 1 else 2)"
      unfolding chain_at_def
      using N len dist b5 ds5_0 shape_len le3 by (auto simp: tn5 le5 less_Suc_eq numeral_2_eq_2)
    show ?thesis
      using run len ch nm3 tn3 unfolding N_def[symmetric]
      by (intro exI[of _ ns] exI[of _ h5]) (simp add: tn5 nm5)
  next
    case False
    then have N3: "3 \<le> N" and lmN': "len_mid + 3 = N" using n lmN by (auto simp: N_def)
    have gl: "py_get ns (- 1) = Inr (ns ! (N - 1))" and gl2: "py_get ns (- 2) = Inr (ns ! (N - 2))"
      using py_get_neg[of 1 ns] py_get_neg[of 2 ns] N3 len by auto
    have dl1: "dangling_slot h5 (ns ! (N - 1)) 1"
    proof -
      have "dangling_slot h3 (ns ! (N - 1)) 1" using ds3[of "N - 1" 1] le3[of "N - 1"] N3 by simp
      moreover have "(ns ! (N - 1), 1) \<notin> S4" using inS4[of "N - 1" 1] lmN' by auto
      ultimately have "dangling_slot h4 (ns ! (N - 1)) 1" by (rule dangling_slot_frame[OF f4, rotated])
      moreover have "(ns ! (N - 1), 1::nat) \<notin> {(ns ! 0, 1), (ns ! 1, 1)}"
        using neq[of "N - 1" 0] neq[of "N - 1" 1] N3 by auto
      ultimately show ?thesis by (rule dangling_slot_frame[OF f5, rotated])
    qed
    have dl2: "dangling_slot h5 (ns ! (N - 2)) 2"
    proof -
      have "dangling_slot h3 (ns ! (N - 2)) 2" using ds3[of "N - 2" 2] le3[of "N - 2"] N3 by auto
      moreover have "(ns ! (N - 2), 2) \<notin> S4" using inS4[of "N - 2" 2] lmN' by auto
      ultimately have "dangling_slot h4 (ns ! (N - 2)) 2" by (rule dangling_slot_frame[OF f4, rotated])
      moreover have "(ns ! (N - 2), 2::nat) \<notin> {(ns ! 0, 1), (ns ! 1, 1)}" by simp
      ultimately show ?thesis by (rule dangling_slot_frame[OF f5, rotated])
    qed
    have dim6: "shape (tensor (net_nodes h5 (ns ! (N - 1)))) ! 1 =
                shape (tensor (net_nodes h5 (ns ! (N - 2)))) ! 2"
      using tn3[of "N - 1"] tn3[of "N - 2"] N3 by (auto simp: tn5 zero_state_shape_virtual)
    have nl: "ns ! (N - 1) \<noteq> ns ! (N - 2)" using neq[of "N - 1" "N - 2"] N3 by auto
    from connect_nodes_spec[OF gl gl2 dl1 dl2 nl dim6] obtain h6 where
      c6: "connect_nodes ns (- 1) 1 (- 2) 2 h5 = (Inr (), h6)"
      and b6: "bonded h6 (ns ! (N - 1)) 1 (ns ! (N - 2)) 2"
      and f6: "net_frame h5 h6 {(ns ! (N - 1), 1), (ns ! (N - 2), 2)}" by auto
    have tn6: "\<And>k. tensor (net_nodes h6 k) = tensor (net_nodes h3 k)"
      and le6: "\<And>k. length (edges (net_nodes h6 k)) = length (edges (net_nodes h3 k))"
      and nm6: "\<And>k. name (net_nodes h6 k) = name (net_nodes h3 k)"
      using f6 tn5 le5 nm5 by (auto simp: net_frame_def)
    have ds6_0: "\<And>i. i < N \<Longrightarrow> dangling_slot h6 (ns ! i) 0"
      using dangling_slot_frame[OF f6] ds5_0 by simp
    have run: "build_nodes n d p h = (Inr ns, h6)"
      unfolding build_nodes_alt
      apply (rule bnd_step, rule mk, rule bnd_step, rule c4)
      apply (simp only: False if_False)
      apply (rule bnd_step, rule bnd_step, rule c5, rule c6)
      apply simp
      done
    have bonds: "\<And>i. i < N - 1 \<Longrightarrow> bonded h6 (ns ! i) (if i = 0 then 1 else 2) (ns ! (i + 1)) 1"
    proof -
      fix i assume i: "i < N - 1"
      consider "i = 0" | "1 \<le> i \<and> i < N - 2" | "i = N - 2 \<and> 1 \<le> i" using i by linarith
      then show "bonded h6 (ns ! i) (if i = 0 then 1 else 2) (ns ! (i + 1)) 1"
      proof cases
        case 1
        have "(ns ! 0, 1::nat) \<notin> {(ns ! (N - 1), 1), (ns ! (N - 2), 2)}"
          using neq[of 0 "N - 1"] N3 by auto
        moreover have "(ns ! 1, 1::nat) \<notin> {(ns ! (N - 1), 1), (ns ! (N - 2), 2)}"
          using neq[of 1 "N - 1"] N3 by auto
        ultimately show ?thesis using bonded_frame[OF f6 _ _ b5] 1 by simp
      next
        case 2
        then have b: "bonded h4 (ns ! i) 2 (ns ! (i + 1)) 1" using b4[of i] lmN' by auto
        have lt: "i < N" "i + 1 < N" "0 < N" "1 < N" "N - 2 < N" "N - 1 < N"
             "i + 1 \<noteq> 0" "i + 1 \<noteq> 1" "i \<noteq> N - 2" "i + 1 \<noteq> N - 1"
          using 2 N3 by linarith+
        have "(ns ! i, 2::nat) \<notin> {(ns ! 0, 1), (ns ! 1, 1)}" by simp
        moreover have "(ns ! (i + 1), 1::nat) \<notin> {(ns ! 0, 1), (ns ! 1, 1)}"
          using neq[OF lt(2) lt(3) lt(7)] neq[OF lt(2) lt(4) lt(8)] by simp
        ultimately have b': "bonded h5 (ns ! i) 2 (ns ! (i + 1)) 1"
          using bonded_frame[OF f5 _ _ b] by simp
        have "(ns ! i, 2::nat) \<notin> {(ns ! (N - 1), 1), (ns ! (N - 2), 2)}"
          using neq[OF lt(1) lt(5) lt(9)] by simp
        moreover have "(ns ! (i + 1), 1::nat) \<notin> {(ns ! (N - 1), 1), (ns ! (N - 2), 2)}"
          using neq[OF lt(2) lt(6) lt(10)] by simp
        ultimately show ?thesis using bonded_frame[OF f6 _ _ b'] 2 by auto
      next
        case 3
        then have "i + 1 = N - 1" using N3 by auto
        then show ?thesis using bonded_sym[OF b6] 3 by auto
      qed
    qed
    have ch: "chain_at h6 ns (\<lambda>i. 0) (\<lambda>i. 1) (\<lambda>i. if i = 0 then 1 else 2)"
      unfolding chain_at_def
      using len dist N2 ds6_0 shape_len le3 bonds by (auto simp: tn6 le6)
    show ?thesis
      using run len ch nm3 tn3 unfolding N_def[symmetric]
      by (intro exI[of _ ns] exI[of _ h6]) (simp add: tn6 nm6)
  qed
qed

lemma max_bond_list_succeeds:
  assumes "2 \<le> n"
  shows "\<exists>mb. max_bond_list n d = Inr mb"
proof -
  have "0 < nat (n div 2)" using assms by simp
  then obtain k where k: "nat (n div 2) = Suc k" by (cases "nat (n div 2)") auto
  have "d ^ nat (n div 2) \<in> set (map (\<lambda>i. d ^ nat (i + 1)) (py_range (n div 2)))"
    unfolding py_range_map k by (auto intro!: image_eqI[of _ _ k])
  then show ?thesis by (auto simp: max_bond_list_def Let_def)
qed

lemma MPS_init_spec:
  assumes n: "2 \<le> n"
  shows "\<exists>m. MPS_init n d p h = Inr m \<and> nqudits m = n \<and> qudit_dimension m = d \<and>
     prefix m = p \<and> length (nodes m) = nat n \<and>
     max_bond_list n d = Inr (max_bond_dimensions m) \<and>
     infidelities m = [] \<and> fidelities m = [] \<and>
     chain_at (net m) (nodes m) (\<lambda>i. 0) (\<lambda>i. 1) (\<lambda>i. if i = 0 then 1 else 2) \<and>
     (\<forall>i < nat n.
        name (net_nodes (net m) (nodes m ! i)) = p @ str_int (int i) \<and>
        tensor (net_nodes (net m) (nodes m ! i)) =
          zero_state d (if i = 0 \<or> i = nat n - 1 then 1 else 2))"
proof -
  from build_nodes_spec[OF n, of d p h] obtain ns h' where
    b: "build_nodes n d p h = (Inr ns, h')" and r: "length ns = nat n"
     "chain_at h' ns (\<lambda>i. 0) (\<lambda>i. 1) (\<lambda>i. if i = 0 then 1 else 2)"
     "\<forall>i < nat n. name (net_nodes h' (ns ! i)) = p @ str_int (int i) \<and>
        tensor (net_nodes h' (ns ! i)) = zero_state d (if i = 0 \<or> i = nat n - 1 then 1 else 2)"
    by blast
  from max_bond_list_succeeds[OF n, of d] obtain mb where mb: "max_bond_list n d = Inr mb" by blast
  show ?thesis
    using n b r mb by (simp add: MPS_init_def)
qed

lemma MPS_init_chain_ok: "2 \<le> n \<Longrightarrow> MPS_init n d p h = Inr m \<Longrightarrow> chain_ok m"
  using MPS_init_spec[of n d p h] by (auto simp: chain_ok_def)

section \<open>Chains are valid\<close>

lemma filter_single:
  "p < length xs \<Longrightarrow> P (xs ! p) \<Longrightarrow> (\<forall>q < length xs. q \<noteq> p \<longrightarrow> \<not> P (xs ! q)) \<Longrightarrow>
   filter P xs = [xs ! p]"
proof (induction xs arbitrary: p)
  case Nil
  then show ?case by simp
next
  case (Cons a xs)
  show ?case
  proof (cases p)
    case 0
    have "\<forall>x \<in> set xs. \<not> P x"
    proof
      fix x assume "x \<in> set xs"
      then obtain q where "q < length xs" "xs ! q = x" by (auto simp: in_set_conv_nth)
      then show "\<not> P x" using Cons.prems(3)[rule_format, of "Suc q"] 0 by auto
    qed
    then have "filter P xs = []" by (simp add: filter_empty_conv)
    then show ?thesis using 0 Cons.prems by simp
  next
    case (Suc k)
    have "\<not> P a" using Cons.prems(3)[rule_format, of 0] Suc by simp
    moreover have "filter P xs = [xs ! k]"
    proof (rule Cons.IH)
      show "k < length xs" using Cons.prems Suc by simp
      show "P (xs ! k)" using Cons.prems Suc by simp
      show "\<forall>q<length xs. q \<noteq> k \<longrightarrow> \<not> P (xs ! q)"
        using Cons.prems(3)[rule_format, of "Suc _"] Suc by auto
    qed
    ultimately show ?thesis using Suc by simp
  qed
qed

text \<open>The axes of a site of a chain.\<close>

lemma chain_at_len: "chain_at h ns pp lp rp \<Longrightarrow> 2 \<le> length ns"
  and chain_at_distinct: "chain_at h ns pp lp rp \<Longrightarrow> distinct ns"
  by (simp_all add: chain_at_def)

lemma chain_at_rank:
  "chain_at h ns pp lp rp \<Longrightarrow> i < length ns \<Longrightarrow>
   length (shape (tensor (net_nodes h (ns ! i)))) = length (edges (net_nodes h (ns ! i)))"
  by (simp add: chain_at_def)

lemma chain_at_length:
  "chain_at h ns pp lp rp \<Longrightarrow> i < length ns \<Longrightarrow>
   length (edges (net_nodes h (ns ! i))) = (if i = 0 \<or> i = length ns - 1 then 2 else 3)"
  by (simp add: chain_at_def)

lemma chain_at_phys:
  "chain_at h ns pp lp rp \<Longrightarrow> i < length ns \<Longrightarrow> dangling_slot h (ns ! i) (pp i)"
  by (simp add: chain_at_def)

lemma chain_at_bond:
  "chain_at h ns pp lp rp \<Longrightarrow> i + 1 < length ns \<Longrightarrow>
   bonded h (ns ! i) (rp i) (ns ! (i + 1)) (lp (i + 1))"
  by (simp add: chain_at_def)

lemma chain_at_bond_left:
  "chain_at h ns pp lp rp \<Longrightarrow> 0 < i \<Longrightarrow> i < length ns \<Longrightarrow>
   bonded h (ns ! (i - 1)) (rp (i - 1)) (ns ! i) (lp i)"
  using chain_at_bond[of h ns pp lp rp "i - 1"] by simp

lemma chain_at_pos:
  assumes "chain_at h ns pp lp rp" and "i < length ns"
  shows "0 < i \<Longrightarrow> lp i \<noteq> pp i" and "i + 1 < length ns \<Longrightarrow> rp i \<noteq> pp i"
    and "0 < i \<Longrightarrow> i + 1 < length ns \<Longrightarrow> lp i \<noteq> rp i"
  using assms by (auto simp: chain_at_def)

lemma chain_at_slots:
  assumes c: "chain_at h ns pp lp rp" and i: "i < length ns"
    and p: "p < length (edges (net_nodes h (ns ! i)))"
  shows "p = pp i \<or> (0 < i \<and> p = lp i) \<or> (i + 1 < length ns \<and> p = rp i)"
proof -
  let ?l = "length (edges (net_nodes h (ns ! i)))"
  note L = chain_at_length[OF c i]
  have P: "pp i < ?l" using chain_at_phys[OF c i] by (simp add: dangling_slot_def)
  have R: "i + 1 < length ns \<Longrightarrow> rp i < ?l"
    using chain_at_bond[OF c, of i] by (simp add: bonded_def)
  have Lb: "0 < i \<Longrightarrow> lp i < ?l"
    using chain_at_bond_left[OF c _ i] by (simp add: bonded_def)
  note d = chain_at_pos[OF c i]
  have N: "2 \<le> length ns" by (rule chain_at_len[OF c])
  consider "i = 0" | "i = length ns - 1" | "0 < i \<and> i + 1 < length ns" using i by linarith
  then show ?thesis
  proof cases
    case 1
    then have "i + 1 < length ns" using N by simp
    then show ?thesis using L P R d(2) p 1 by auto
  next
    case 2
    then have "0 < i" using N by simp
    then show ?thesis using L P Lb d(1) p 2 by auto
  next
    case 3
    then have "?l = 3" using L by auto
    then show ?thesis using P R Lb d p 3 by auto
  qed
qed

lemma bonded_not_dangling:
  "bonded h n p m q \<Longrightarrow> \<not> is_dangling h (edges (net_nodes h n) ! p)"
  by (auto simp: bonded_def is_dangling_def)

lemma dangling_slot_dangling:
  "dangling_slot h n p \<Longrightarrow> is_dangling h (edges (net_nodes h n) ! p)"
  by (auto simp: dangling_slot_def is_dangling_def)

lemma bonded_joins:
  "bonded h n p m q \<Longrightarrow> joins h (edges (net_nodes h n) ! p) n m"
  by (auto simp: bonded_def joins_def)

lemma bonded_ends:
  "bonded h n p m q \<Longrightarrow> joins h (edges (net_nodes h n) ! p) a b \<Longrightarrow>
   (a = n \<and> b = m) \<or> (a = m \<and> b = n)"
  by (auto simp: bonded_def joins_def)

lemma chain_at_nth_neq:
  "chain_at h ns pp lp rp \<Longrightarrow> i < length ns \<Longrightarrow> j < length ns \<Longrightarrow> i \<noteq> j \<Longrightarrow>
   ns ! i \<noteq> ns ! j"
  using chain_at_distinct[of h ns pp lp rp] by (simp add: nth_eq_iff_index_eq)

lemma chain_at_dangling_iff:
  assumes c: "chain_at h ns pp lp rp" and i: "i < length ns"
    and p: "p < length (edges (net_nodes h (ns ! i)))"
  shows "is_dangling h (edges (net_nodes h (ns ! i)) ! p) \<longleftrightarrow> p = pp i"
proof
  assume d: "is_dangling h (edges (net_nodes h (ns ! i)) ! p)"
  from chain_at_slots[OF c i p] show "p = pp i"
  proof (elim disjE conjE)
    assume "0 < i" "p = lp i"
    then have "bonded h (ns ! i) p (ns ! (i - 1)) (rp (i - 1))"
      using bonded_sym[OF chain_at_bond_left[OF c _ i]] by simp
    from bonded_not_dangling[OF this] d show ?thesis by simp
  next
    assume "i + 1 < length ns" "p = rp i"
    then have "bonded h (ns ! i) p (ns ! (i + 1)) (lp (i + 1))"
      using chain_at_bond[OF c, of i] by simp
    from bonded_not_dangling[OF this] d show ?thesis by simp
  qed
next
  assume "p = pp i"
  then show "is_dangling h (edges (net_nodes h (ns ! i)) ! p)"
    using dangling_slot_dangling[OF chain_at_phys[OF c i]] by simp
qed

lemma chain_at_dangling:
  assumes c: "chain_at h ns pp lp rp" and i: "i < length ns"
  shows "get_all_dangling h (ns ! i) = [edges (net_nodes h (ns ! i)) ! pp i]"
proof -
  have P: "pp i < length (edges (net_nodes h (ns ! i)))"
    using chain_at_phys[OF c i] by (simp add: dangling_slot_def)
  have "filter (is_dangling h) (edges (net_nodes h (ns ! i))) = [edges (net_nodes h (ns ! i)) ! pp i]"
    by (rule filter_single[OF P]) (use chain_at_dangling_iff[OF c i] P in auto)
  then show ?thesis by (simp add: get_all_dangling_def)
qed

lemma chain_at_edges_neq:
  assumes c: "chain_at h ns pp lp rp" and i: "0 < i" "i + 1 < length ns"
  shows "edges (net_nodes h (ns ! i)) ! lp i \<noteq> edges (net_nodes h (ns ! i)) ! rp i"
proof
  assume e: "edges (net_nodes h (ns ! i)) ! lp i = edges (net_nodes h (ns ! i)) ! rp i"
  have il: "i < length ns" using i by simp
  have b1: "bonded h (ns ! i) (lp i) (ns ! (i - 1)) (rp (i - 1))"
    using bonded_sym[OF chain_at_bond_left[OF c i(1) il]] .
  have b2: "bonded h (ns ! i) (rp i) (ns ! (i + 1)) (lp (i + 1))"
    using chain_at_bond[OF c i(2)] .
  from bonded_ends[OF b1, of "ns ! i" "ns ! (i + 1)"] bonded_joins[OF b2] e
  have "ns ! (i + 1) = ns ! (i - 1) \<or> ns ! (i + 1) = ns ! i" by auto
  moreover have "ns ! (i + 1) \<noteq> ns ! (i - 1)" "ns ! (i + 1) \<noteq> ns ! i"
    using chain_at_nth_neq[OF c, of "i + 1" "i - 1"] chain_at_nth_neq[OF c, of "i + 1" i] i by auto
  ultimately show False by simp
qed

lemma chain_at_nondangling_set:
  assumes c: "chain_at h ns pp lp rp" and i: "i < length ns"
  shows "set (get_all_nondangling h (ns ! i)) =
     (if 0 < i then {edges (net_nodes h (ns ! i)) ! lp i} else {}) \<union>
     (if i + 1 < length ns then {edges (net_nodes h (ns ! i)) ! rp i} else {})"
proof -
  let ?es = "edges (net_nodes h (ns ! i))"
  have R: "i + 1 < length ns \<Longrightarrow> rp i < length ?es \<and> rp i \<noteq> pp i"
    using chain_at_bond[OF c, of i] chain_at_pos(2)[OF c i] by (simp add: bonded_def)
  have L: "0 < i \<Longrightarrow> lp i < length ?es \<and> lp i \<noteq> pp i"
    using chain_at_bond_left[OF c _ i] chain_at_pos(1)[OF c i] by (simp add: bonded_def)
  have "set (get_all_nondangling h (ns ! i)) = {?es ! p | p. p < length ?es \<and> p \<noteq> pp i}"
    using chain_at_dangling_iff[OF c i]
    by (auto simp: get_all_nondangling_def in_set_conv_nth)
  also have "\<dots> = (if 0 < i then {?es ! lp i} else {}) \<union> (if i + 1 < length ns then {?es ! rp i} else {})"
    using chain_at_slots[OF c i] R L by (auto split: if_splits)
  finally show ?thesis .
qed

lemma chain_at_nondangling_length:
  assumes c: "chain_at h ns pp lp rp" and i: "i < length ns"
  shows "length (get_all_nondangling h (ns ! i)) = (if i = 0 \<or> i = length ns - 1 then 1 else 2)"
proof -
  have d: "distinct (get_all_nondangling h (ns ! i))" by (simp add: get_all_nondangling_def)
  have N: "2 \<le> length ns" by (rule chain_at_len[OF c])
  have "length (get_all_nondangling h (ns ! i)) = card (set (get_all_nondangling h (ns ! i)))"
    using d by (simp add: distinct_card)
  also have "\<dots> = (if i = 0 \<or> i = length ns - 1 then 1 else 2)"
    unfolding chain_at_nondangling_set[OF c i]
    using chain_at_edges_neq[OF c, of i] i N by (auto split: if_splits)
  finally show ?thesis .
qed

lemma reach_mono: "set seen \<subseteq> set (reach h k seen)"
proof (induction k arbitrary: seen)
  case 0
  then show ?case by simp
next
  case (Suc k)
  have "set seen \<subseteq> set (remdups (seen @ concat (map (neighbours h) seen)))" by auto
  also have "\<dots> \<subseteq> set (reach h k (remdups (seen @ concat (map (neighbours h) seen))))"
    by (rule Suc.IH)
  finally show ?case by simp
qed

lemma reach_neighbour:
  assumes "a \<in> set seen" and "b \<in> set (neighbours h a)"
  shows "b \<in> set (reach h (Suc k) seen)"
proof -
  have "b \<in> set (remdups (seen @ concat (map (neighbours h) seen)))" using assms by auto
  then show ?thesis using reach_mono[of "remdups (seen @ concat (map (neighbours h) seen))" h k]
    by auto
qed

lemma bonded_neighbour: "bonded h n p m q \<Longrightarrow> m \<in> set (neighbours h n)"
  unfolding neighbours_def bonded_def
  by (auto intro!: bexI[of _ "edges (net_nodes h n) ! p"])

lemma bonded_check_connected: "bonded h n p m q \<Longrightarrow> check_connected h n m"
proof -
  assume b: "bonded h n p m q"
  then have "0 < next_node h" by (auto simp: bonded_def)
  then obtain k where k: "next_node h = Suc k" by (cases "next_node h") auto
  show ?thesis
    unfolding check_connected_def reachable_def k
    by (rule reach_neighbour[OF _ bonded_neighbour[OF b]]) simp
qed

lemma chain_at_site_valid:
  assumes c: "chain_at h ns pp lp rp" and i: "i < length ns"
  shows "site_valid h ns i"
  unfolding site_valid_def
  using chain_at_dangling[OF c i] chain_at_nondangling_length[OF c i]
    bonded_check_connected[OF chain_at_bond[OF c, of i]]
  by auto

lemma chain_at_is_valid:
  assumes "chain_at (net m) (nodes m) pp lp rp"
  shows "is_valid m"
  unfolding is_valid_def
  using chain_at_len[OF assms] chain_at_site_valid[OF assms] by (auto simp: list_all_iff)

lemma chain_ok_is_valid: "chain_ok m \<Longrightarrow> is_valid m"
  by (auto simp: chain_ok_def intro: chain_at_is_valid)

lemma chain_at_shared:
  assumes c: "chain_at h ns pp lp rp" and i: "i + 1 < length ns"
  shows "get_shared_edges h (ns ! i) (ns ! (i + 1)) = [edges (net_nodes h (ns ! i)) ! rp i]"
proof -
  let ?es = "edges (net_nodes h (ns ! i))"
  have il: "i < length ns" using i by simp
  note b = chain_at_bond[OF c i]
  have R: "rp i < length ?es" using b by (simp add: bonded_def)
  have J: "joins h (?es ! rp i) (ns ! i) (ns ! (i + 1))" by (rule bonded_joins[OF b])
  have O: "\<forall>q < length ?es. q \<noteq> rp i \<longrightarrow> \<not> joins h (?es ! q) (ns ! i) (ns ! (i + 1))"
  proof (intro allI impI)
    fix q assume q: "q < length ?es" "q \<noteq> rp i"
    from chain_at_slots[OF c il q(1)] q(2) i
    consider "q = pp i" | "0 < i \<and> q = lp i" by auto
    then show "\<not> joins h (?es ! q) (ns ! i) (ns ! (i + 1))"
    proof cases
      case 1
      then show ?thesis using chain_at_phys[OF c il] by (auto simp: dangling_slot_def joins_def)
    next
      case 2
      then have bl: "bonded h (ns ! i) q (ns ! (i - 1)) (rp (i - 1))"
        using bonded_sym[OF chain_at_bond_left[OF c _ il]] by simp
      have "ns ! (i + 1) \<noteq> ns ! (i - 1)" "ns ! (i + 1) \<noteq> ns ! i"
        using chain_at_nth_neq[OF c, of "i + 1" "i - 1"] chain_at_nth_neq[OF c, of "i + 1" i] i 2
        by auto
      then show ?thesis using bonded_ends[OF bl, of "ns ! i" "ns ! (i + 1)"] by auto
    qed
  qed
  have "filter (\<lambda>e. joins h e (ns ! i) (ns ! (i + 1))) ?es = [?es ! rp i]"
    by (rule filter_single[OF R J O])
  then show ?thesis by (simp add: get_shared_edges_def)
qed

lemma bonded_dimension:
  "bonded h n p m q \<Longrightarrow>
   dimension h (edges (net_nodes h n) ! p) = shape (tensor (net_nodes h n)) ! p"
  by (auto simp: bonded_def dimension_def)

lemma chain_bond_dimension:
  assumes c: "chain_at (net m) (nodes m) pp lp rp" and nq: "nqudits m = int (length (nodes m))"
    and i: "i + 1 < length (nodes m)"
  shows "get_bond_dimension_of m (int i) =
           Inr (int (shape (tensor (net_nodes (net m) (nodes m ! i))) ! rp i))"
proof -
  note b = chain_at_bond[OF c i]
  have g: "get_node m (int i) = Inr (nodes m ! i)" "get_node m (int i + 1) = Inr (nodes m ! (i + 1))"
    using i by (auto simp: get_node_def py_get_def Let_def nat_add_distrib)
  show ?thesis
    unfolding get_bond_dimension_of_def
    using chain_at_is_valid[OF c] nq i g bonded_check_connected[OF b]
    by (simp add: chain_at_shared[OF c i, simplified] pop_def bonded_dimension[OF b])
qed

lemma dangling_slot_extends:
  "net_extends h h' \<Longrightarrow> dangling_slot h n p \<Longrightarrow> dangling_slot h' n p"
  unfolding net_extends_def dangling_slot_def by auto

lemma bonded_extends:
  "net_extends h h' \<Longrightarrow> bonded h n p m q \<Longrightarrow> bonded h' n p m q"
  unfolding net_extends_def bonded_def by auto

lemma chain_at_extends:
  assumes c: "chain_at h ns pp lp rp" and e: "net_extends h h'"
  shows "chain_at h' ns pp lp rp"
proof -
  have lt: "\<And>i. i < length ns \<Longrightarrow> ns ! i < next_node h"
    using chain_at_phys[OF c] by (simp add: dangling_slot_def)
  then have same: "\<And>i. i < length ns \<Longrightarrow> net_nodes h' (ns ! i) = net_nodes h (ns ! i)"
    using e by (simp add: net_extends_def)
  show ?thesis
    unfolding chain_at_def
    using chain_at_len[OF c] chain_at_distinct[OF c] chain_at_rank[OF c] chain_at_length[OF c]
      dangling_slot_extends[OF e chain_at_phys[OF c]] chain_at_pos[OF c]
      bonded_extends[OF e chain_at_bond[OF c]]
    by (auto simp: same)
qed

lemma Node_extends: "Node t nm h = (r, h') \<Longrightarrow> net_extends h h'"
  by (auto simp: Node_result net_extends_def dangling_edges_def)

lemma Node_gate:
  assumes "Node t nm h = (r, h')"
  shows "r = Inr (next_node h)"
    and "get_all_dangling h' (next_node h) = map (\<lambda>i. next_edge h + i) [0..<rank t]"
    and "get_all_nondangling h' (next_node h) = []"
    and "\<forall>p < rank t. dangling_slot h' (next_node h) p"
    and "tensor (net_nodes h' (next_node h)) = t"
    and "length (edges (net_nodes h' (next_node h))) = rank t"
proof -
  have h': "h' = h\<lparr>net_nodes := (net_nodes h)(next_node h := \<lparr>name = nm, tensor = t,
                        edges = map (\<lambda>i. next_edge h + i) [0..<rank t]\<rparr>),
       net_edges := dangling_edges (next_node h) (next_edge h) (rank t) (net_edges h),
       next_node := Suc (next_node h),
       next_edge := next_edge h + rank t\<rparr>" and r: "r = Inr (next_node h)"
    using assms by (simp_all add: Node_result)
  show "r = Inr (next_node h)" by (rule r)
  have all: "filter (is_dangling h') (map (\<lambda>i. next_edge h + i) [0..<rank t]) =
             map (\<lambda>i. next_edge h + i) [0..<rank t]"
    by (auto simp: h' is_dangling_def dangling_edges_def filter_id_conv)
  have dist: "distinct (map (\<lambda>i. next_edge h + i) [0..<rank t])"
    by (simp add: distinct_map inj_on_def)
  show "get_all_dangling h' (next_node h) = map (\<lambda>i. next_edge h + i) [0..<rank t]"
    unfolding get_all_dangling_def using all dist by (simp add: h')
  show "get_all_nondangling h' (next_node h) = []"
    unfolding get_all_nondangling_def
    by (auto simp: h' is_dangling_def dangling_edges_def filter_empty_conv)
  show "\<forall>p < rank t. dangling_slot h' (next_node h) p"
    by (auto simp: h' dangling_slot_def dangling_edges_def)
  show "tensor (net_nodes h' (next_node h)) = t" by (simp add: h')
  show "length (edges (net_nodes h' (next_node h))) = rank t" by (simp add: h')
qed

section \<open>Chains with a gate node\<close>

lemma fresh_chain:
  assumes "2 \<le> n" and "m = projr (MPS_init n d p h)"
  shows "MPS_init n d p h = Inr m" and "chain_ok m" and "nqudits m = n"
    and "length (nodes m) = nat n" and "qudit_dimension m = d"
proof -
  from MPS_init_spec[OF assms(1), of d p h] obtain m' where
    m': "MPS_init n d p h = Inr m'" "nqudits m' = n" "length (nodes m') = nat n"
        "qudit_dimension m' = d"
        "chain_at (net m') (nodes m') (\<lambda>i. 0) (\<lambda>i. 1) (\<lambda>i. if i = 0 then 1 else 2)"
    by blast
  then have e: "m = m'" using assms(2) by simp
  show "MPS_init n d p h = Inr m" "nqudits m = n" "length (nodes m) = nat n" "qudit_dimension m = d"
    using m' e by simp_all
  show "chain_ok m" unfolding chain_ok_def e using m' assms(1) by auto
qed

lemma gate_added:
  assumes c: "chain_ok m" and g: "on_net (Node t nm) m = (r, m')"
  shows "r = Inr (next_node (net m))" and "chain_ok m'" and "nodes m' = nodes m"
    and "nqudits m' = nqudits m"
    and "length (get_all_dangling (net m') (next_node (net m))) = rank t"
    and "length (get_all_nondangling (net m') (next_node (net m))) = 0"
proof -
  obtain h' where N: "Node t nm (net m) = (r, h')" and m': "m' = m\<lparr>net := h'\<rparr>"
    using g by (auto simp: on_net_def split: prod.splits)
  note G = Node_gate[OF N]
  show "r = Inr (next_node (net m))" by (rule G(1))
  show "nodes m' = nodes m" "nqudits m' = nqudits m" by (simp_all add: m')
  from c obtain pp lp rp where ch: "chain_at (net m) (nodes m) pp lp rp"
    and nq: "nqudits m = int (length (nodes m))" by (auto simp: chain_ok_def)
  from chain_at_extends[OF ch Node_extends[OF N]] nq
  show "chain_ok m'" by (auto simp: chain_ok_def m')
  show "length (get_all_dangling (net m') (next_node (net m))) = rank t"
    "length (get_all_nondangling (net m') (next_node (net m))) = 0"
    using G(2,3) by (simp_all add: m')
qed

section \<open>Two-site gates: the index checks\<close>

lemma two_qubit_reversed:
  assumes "is_valid m" and "in_range m j" and "in_range m (j + 1)"
    and "length (get_all_dangling (net m) gate) = 4"
    and "length (get_all_nondangling (net m) gate) = 0"
  shows "apply_two_qubit_gate svd gate (j + 1) j kw m =
           (Inl (ValueError ''IndexA must be less than IndexB.''), m)"
  using assms by (simp add: apply_two_qubit_gate_def)

lemma two_qubit_non_adjacent:
  assumes "is_valid m" and "in_range m i" and "in_range m j" and "1 < \<bar>i - j\<bar>"
  shows "apply_two_qubit_gate svd gate i j kw m =
           (Inl (ValueError ''Indices must be for adjacent tensors (must differ by one).''), m)"
  using assms by (auto simp: apply_two_qubit_gate_def)

lemma dispatch_non_adjacent:
  assumes "is_valid m" and "op_is_valid m op" and "qudit_indices op = [i, j]" and "1 < \<bar>i - j\<bar>"
  shows "apply_mps_operation svd op kw m =
           (Inl (ValueError ''Indices must be for adjacent tensors (must differ by one).''), m)"
proof -
  have "in_range m i" "in_range m j" using assms(2,3) by (auto simp: op_is_valid_def in_range_def)
  from two_qubit_non_adjacent[OF assms(1) this assms(4)] assms(2,3)
  show ?thesis
    by (simp add: apply_mps_operation_def is_single_qudit_operation_def is_two_qudit_operation_def)
qed

text \<open>A three-qubit chain with a CNOT gate node in its store.\<close>

lemma three_qubits_cnot:
  assumes "on_net cnot_gate three_qubits = (r, m)"
  shows "r = Inr (next_node (net three_qubits))" and "is_valid m" and "nqudits m = 3"
    and "length (get_all_dangling (net m) (next_node (net three_qubits))) = 4"
    and "length (get_all_nondangling (net m) (next_node (net three_qubits))) = 0"
    and "length (edges (net_nodes (net m) (next_node (net three_qubits)))) = 4"
proof -
  note f = fresh_chain[OF _ three_qubits_def]
  have c: "chain_ok three_qubits" using f(2) by simp
  note g = gate_added[OF c assms[unfolded cnot_gate_def]]
  show "r = Inr (next_node (net three_qubits))" by (rule g(1))
  show "is_valid m" by (rule chain_ok_is_valid[OF g(2)])
  show "nqudits m = 3" using g(4) f(3) by simp
  show "length (get_all_dangling (net m) (next_node (net three_qubits))) = 4"
       "length (get_all_nondangling (net m) (next_node (net three_qubits))) = 0"
    using g(5,6) by (simp_all add: rank_def matrix_tensor_def)
  obtain h' where N: "cnot_gate (net three_qubits) = (r, h')" and m: "m = three_qubits\<lparr>net := h'\<rparr>"
    using assms by (auto simp: on_net_def split: prod.splits)
  show "length (edges (net_nodes (net m) (next_node (net three_qubits)))) = 4"
    using Node_gate(6)[OF N[unfolded cnot_gate_def]] by (simp add: m rank_def matrix_tensor_def)
qed

section \<open>Moving edges to a new node\<close>

lemma update_axis_retarget:
  "update_axis e n p new j es = es(e := retarget (es e) n p new j)"
  by (auto simp: update_axis_def retarget_def fun_eq_iff)

lemma move_edges_other:
  "e \<notin> fst ` set r \<Longrightarrow> move_edges r new j es e = es e"
proof (induction r arbitrary: j es)
  case Nil
  then show ?case by simp
next
  case (Cons a r)
  obtain e' n p where a: "a = (e', n, p)" by (cases a)
  show ?case using Cons by (simp add: a update_axis_retarget)
qed

lemma move_edges_nth:
  "distinct (map fst r) \<Longrightarrow> k < length r \<Longrightarrow> r ! k = (e, n, p) \<Longrightarrow>
   move_edges r new j es e = retarget (es e) n p new (j + k)"
proof (induction r arbitrary: j es k)
  case Nil
  then show ?case by simp
next
  case (Cons a r)
  obtain e' n' p' where a: "a = (e', n', p')" by (cases a)
  show ?case
  proof (cases k)
    case 0
    then have "e' = e" "n' = n" "p' = p" using Cons.prems a by simp_all
    moreover have "e \<notin> fst ` set r" using Cons.prems(1) a \<open>e' = e\<close> by auto
    ultimately show ?thesis using 0 a by (simp add: move_edges_other update_axis_retarget)
  next
    case (Suc k')
    then have k': "k' < length r" "r ! k' = (e, n, p)" using Cons.prems by simp_all
    have "e \<in> fst ` set r" using k' by (metis fst_conv image_eqI nth_mem)
    then have ne: "e' \<noteq> e" using Cons.prems(1) a by auto
    have "move_edges r new (Suc j) (update_axis e' n' p' new j es) e =
          retarget (update_axis e' n' p' new j es e) n p new (Suc j + k')"
      using Cons.IH[of k' "Suc j"] Cons.prems(1) k' by simp
    then show ?thesis using ne Suc a by (simp add: update_axis_retarget)
  qed
qed

lemma remaining_kept:
  "remaining h n gone = map (\<lambda>p. (edges (net_nodes h n) ! p, n, p)) (kept h n gone)"
  by (simp add: remaining_def kept_def)

lemma kept_props:
  "p \<in> set (kept h n gone) \<longleftrightarrow>
     p < length (edges (net_nodes h n)) \<and> edges (net_nodes h n) ! p \<notin> set gone"
  "distinct (kept h n gone)"
  by (auto simp: kept_def)

section \<open>Nodes with well-formed axes\<close>

lemma slot_ok_end:
  assumes "slot_ok h n p"
  shows "(node1 (net_edges h (edges (net_nodes h n) ! p)) = n \<and>
          axis1 (net_edges h (edges (net_nodes h n) ! p)) = p \<and>
          node2 (net_edges h (edges (net_nodes h n) ! p)) \<noteq> Some n) \<or>
         (node1 (net_edges h (edges (net_nodes h n) ! p)) \<noteq> n \<and>
          node2 (net_edges h (edges (net_nodes h n) ! p)) = Some n \<and>
          axis2 (net_edges h (edges (net_nodes h n) ! p)) = p)"
  using assms unfolding slot_ok_def
proof
  assume "dangling_slot h n p"
  then show ?thesis by (simp add: dangling_slot_def)
next
  assume "\<exists>m q. bonded h n p m q"
  then obtain m q where "bonded h n p m q" by blast
  then show ?thesis unfolding bonded_def by auto
qed

lemma node_ok_distinct:
  assumes "node_ok h n"
  shows "distinct (edges (net_nodes h n))"
proof -
  let ?es = "edges (net_nodes h n)"
  have "\<And>p q. p < length ?es \<Longrightarrow> q < length ?es \<Longrightarrow> ?es ! p = ?es ! q \<Longrightarrow> p = q"
  proof -
    fix p q assume p: "p < length ?es" and q: "q < length ?es" and e: "?es ! p = ?es ! q"
    have sp: "slot_ok h n p" and sq: "slot_ok h n q" using assms p q by (auto simp: node_ok_def)
    from slot_ok_end[OF sp] slot_ok_end[OF sq] show "p = q" unfolding e by metis
  qed
  then show ?thesis by (auto simp: distinct_conv_nth)
qed

lemma axis_at_slot:
  "slot_ok h n p \<Longrightarrow> axis_at h n (edges (net_nodes h n) ! p) = p"
  using slot_ok_end[of h n p] by (auto simp: axis_at_def)

lemma node_ok_slot: "node_ok h n \<Longrightarrow> p < length (edges (net_nodes h n)) \<Longrightarrow> slot_ok h n p"
  by (simp add: node_ok_def)

lemma slot_joins_bonded:
  assumes s: "slot_ok h x p" and j: "joins h (edges (net_nodes h x) ! p) x y" and xy: "x \<noteq> y"
  shows "\<exists>q. bonded h x p y q"
  using s unfolding slot_ok_def
proof
  assume "dangling_slot h x p"
  then show ?thesis using j by (simp add: dangling_slot_def joins_def)
next
  assume "\<exists>m q. bonded h x p m q"
  then obtain m q where b: "bonded h x p m q" by blast
  from bonded_ends[OF b j] have "m = y" using b xy by (auto simp: bonded_def)
  then show ?thesis using b by blast
qed

lemma bonded_axis_other:
  "bonded h x p y q \<Longrightarrow> axis_at h y (edges (net_nodes h x) ! p) = q"
  by (auto simp: bonded_def axis_at_def)

lemma free_axes_kept:
  assumes x: "node_ok h x" and sh: "set sh \<subseteq> set (edges (net_nodes h x))"
  shows "free_axes (length (edges (net_nodes h x))) (map (axis_at h x) sh) = kept h x sh"
proof -
  let ?es = "edges (net_nodes h x)"
  have "\<And>p. p < length ?es \<Longrightarrow> (p \<in> set (map (axis_at h x) sh)) = (?es ! p \<in> set sh)"
  proof -
    fix p assume p: "p < length ?es"
    show "(p \<in> set (map (axis_at h x) sh)) = (?es ! p \<in> set sh)"
    proof
      assume "p \<in> set (map (axis_at h x) sh)"
      then obtain e where e: "e \<in> set sh" "p = axis_at h x e" by auto
      then obtain p' where p': "p' < length ?es" "?es ! p' = e" using sh
        by (metis in_set_conv_nth subsetD)
      have "axis_at h x e = p'" using axis_at_slot[OF node_ok_slot[OF x p'(1)]] p'(2) by simp
      then show "?es ! p \<in> set sh" using e p' by simp
    next
      assume "?es ! p \<in> set sh"
      moreover have "axis_at h x (?es ! p) = p" by (rule axis_at_slot[OF node_ok_slot[OF x p]])
      ultimately show "p \<in> set (map (axis_at h x) sh)" by force
    qed
  qed
  then have "\<And>p. p \<in> set [0..<length ?es] \<Longrightarrow>
      (p \<notin> set (map (axis_at h x) sh)) = (?es ! p \<notin> set sh)"
    by (metis atLeastLessThan_iff set_upt)
  then show ?thesis unfolding free_axes_def kept_def by (rule filter_cong[OF refl])
qed

lemma free_axes_kept_other:
  assumes x: "node_ok h x" and y: "node_ok h y" and xy: "x \<noteq> y"
    and sh: "set sh \<subseteq> {e \<in> set (edges (net_nodes h x)). joins h e x y}"
  shows "free_axes (length (edges (net_nodes h y))) (map (axis_at h y) sh) = kept h y sh"
proof -
  let ?ex = "edges (net_nodes h x)" and ?ey = "edges (net_nodes h y)"
  have sb: "\<And>e. e \<in> set sh \<Longrightarrow> \<exists>p q. e = ?ex ! p \<and> bonded h x p y q"
  proof -
    fix e assume "e \<in> set sh"
    then have "e \<in> set ?ex" "joins h e x y" using sh by auto
    then obtain p where p: "p < length ?ex" "?ex ! p = e" by (auto simp: in_set_conv_nth)
    from slot_joins_bonded[OF node_ok_slot[OF x p(1)] _ xy] \<open>joins h e x y\<close> p
    show "\<exists>p q. e = ?ex ! p \<and> bonded h x p y q" by auto
  qed
  have dy: "distinct ?ey" by (rule node_ok_distinct[OF y])
  have "\<And>q. q < length ?ey \<Longrightarrow> (q \<in> set (map (axis_at h y) sh)) = (?ey ! q \<in> set sh)"
  proof -
    fix q assume q: "q < length ?ey"
    show "(q \<in> set (map (axis_at h y) sh)) = (?ey ! q \<in> set sh)"
    proof
      assume "q \<in> set (map (axis_at h y) sh)"
      then obtain e where e: "e \<in> set sh" "q = axis_at h y e" by auto
      from sb[OF e(1)] obtain p q' where b: "e = ?ex ! p" "bonded h x p y q'" by blast
      have "q' = q" using bonded_axis_other[OF b(2)] b(1) e(2) by simp
      then have "?ey ! q = e" using b by (simp add: bonded_def)
      then show "?ey ! q \<in> set sh" using e by simp
    next
      assume a: "?ey ! q \<in> set sh"
      from sb[OF a] obtain p q' where b: "?ey ! q = ?ex ! p" "bonded h x p y q'" by blast
      have "?ey ! q' = ?ey ! q" "q' < length ?ey" using b by (simp_all add: bonded_def)
      then have "q' = q" using dy q by (simp add: nth_eq_iff_index_eq)
      then have "axis_at h y (?ey ! q) = q" using bonded_axis_other[OF b(2)] b(1) by simp
      then show "q \<in> set (map (axis_at h y) sh)" using a by force
    qed
  qed
  then have "\<And>q. q \<in> set [0..<length ?ey] \<Longrightarrow>
      (q \<notin> set (map (axis_at h y) sh)) = (?ey ! q \<notin> set sh)"
    by (metis atLeastLessThan_iff set_upt)
  then show ?thesis unfolding free_axes_def kept_def by (rule filter_cong[OF refl])
qed

lemma fresh_edges_simps:
  "next_node (fresh_edges n h) = next_node h"
  "next_edge (fresh_edges n h) = next_edge h + length (edges (net_nodes h n))"
  "m \<noteq> n \<Longrightarrow> net_nodes (fresh_edges n h) m = net_nodes h m"
  "e < next_edge h \<Longrightarrow> net_edges (fresh_edges n h) e = net_edges h e"
  "name (net_nodes (fresh_edges n h) m) = name (net_nodes h m)"
  "tensor (net_nodes (fresh_edges n h) m) = tensor (net_nodes h m)"
  "length (edges (net_nodes (fresh_edges n h) m)) = length (edges (net_nodes h m))"
  by (auto simp: fresh_edges_def Let_def dangling_edges_def)

lemma fresh_edges_fresh:
  "p < length (edges (net_nodes h n)) \<Longrightarrow> n < next_node h \<Longrightarrow>
   dangling_slot (fresh_edges n h) n p"
  by (auto simp: fresh_edges_def Let_def dangling_edges_def dangling_slot_def)

text \<open>The store after two nodes have been replaced by a new one.\<close>

lemma replace_nodes_two:
  assumes "x \<noteq> y"
  shows "\<exists>h'. replace_nodes [x, y] r t nm h = (Inr (next_node h), h') \<and>
     next_node h' = Suc (next_node h) \<and>
     next_edge h' = next_edge h + length (edges (net_nodes h x)) + length (edges (net_nodes h y)) \<and>
     net_nodes h' (next_node h) = \<lparr>name = nm, tensor = t, edges = map fst r\<rparr> \<and>
     (\<forall>m. m \<noteq> x \<and> m \<noteq> y \<and> m \<noteq> next_node h \<longrightarrow> net_nodes h' m = net_nodes h m) \<and>
     (\<forall>m. m \<noteq> next_node h \<longrightarrow>
        name (net_nodes h' m) = name (net_nodes h m) \<and>
        tensor (net_nodes h' m) = tensor (net_nodes h m) \<and>
        length (edges (net_nodes h' m)) = length (edges (net_nodes h m))) \<and>
     (\<forall>e < next_edge h. e \<notin> fst ` set r \<longrightarrow> net_edges h' e = net_edges h e) \<and>
     (distinct (map fst r) \<longrightarrow>
        (\<forall>k < length r. fst (r ! k) < next_edge h \<longrightarrow>
           net_edges h' (fst (r ! k)) =
             retarget (net_edges h (fst (r ! k))) (fst (snd (r ! k))) (snd (snd (r ! k)))
               (next_node h) k)) \<and>
     (\<forall>n \<in> {x, y}. n < next_node h \<longrightarrow>
        (\<forall>p < length (edges (net_nodes h n)).
           edges (net_nodes h' n) ! p \<notin> fst ` set r \<longrightarrow> dangling_slot h' n p)) \<and>
     (\<forall>n \<in> {x, y}. n < next_node h \<longrightarrow>
        (\<forall>p < length (edges (net_nodes h n)). next_edge h \<le> edges (net_nodes h' n) ! p))"
proof -
  define h1 where "h1 = fresh_edges y (fresh_edges x h)"
  define h' where "h' = h1\<lparr>net_nodes := (net_nodes h1)(next_node h1 := \<lparr>name = nm, tensor = t, edges = map fst r\<rparr>),
            net_edges := move_edges r (next_node h1) 0 (net_edges h1),
            next_node := Suc (next_node h1)\<rparr>"
  have run: "replace_nodes [x, y] r t nm h = (Inr (next_node h), h')"
    by (simp add: replace_nodes_def Let_def h'_def h1_def fresh_edges_simps)
  have n1: "next_node h1 = next_node h" by (simp add: h1_def fresh_edges_simps)
  have e1: "next_edge h1 = next_edge h + length (edges (net_nodes h x)) + length (edges (net_nodes h y))"
    using assms by (simp add: h1_def fresh_edges_simps)
  have ed1: "\<And>e. e < next_edge h \<Longrightarrow> net_edges h1 e = net_edges h e"
    by (simp add: h1_def fresh_edges_simps)
  have nd1: "\<And>m. m \<noteq> x \<Longrightarrow> m \<noteq> y \<Longrightarrow> net_nodes h1 m = net_nodes h m"
    by (simp add: h1_def fresh_edges_simps)
  have c1: "next_node h' = Suc (next_node h)" by (simp add: h'_def n1)
  have c2: "next_edge h' = next_edge h + length (edges (net_nodes h x)) + length (edges (net_nodes h y))"
    by (simp add: h'_def e1)
  have c3: "net_nodes h' (next_node h) = \<lparr>name = nm, tensor = t, edges = map fst r\<rparr>"
    by (simp add: h'_def n1)
  have c4: "\<forall>m. m \<noteq> x \<and> m \<noteq> y \<and> m \<noteq> next_node h \<longrightarrow> net_nodes h' m = net_nodes h m"
    by (simp add: h'_def n1 nd1)
  have c5: "\<forall>m. m \<noteq> next_node h \<longrightarrow>
        name (net_nodes h' m) = name (net_nodes h m) \<and>
        tensor (net_nodes h' m) = tensor (net_nodes h m) \<and>
        length (edges (net_nodes h' m)) = length (edges (net_nodes h m))"
    by (simp add: h'_def n1 h1_def fresh_edges_simps)
  have c6: "\<forall>e < next_edge h. e \<notin> fst ` set r \<longrightarrow> net_edges h' e = net_edges h e"
    by (simp add: h'_def move_edges_other ed1)
  have c7: "distinct (map fst r) \<longrightarrow>
        (\<forall>k < length r. fst (r ! k) < next_edge h \<longrightarrow>
           net_edges h' (fst (r ! k)) =
             retarget (net_edges h (fst (r ! k))) (fst (snd (r ! k))) (snd (snd (r ! k)))
               (next_node h) k)"
  proof (intro impI allI)
    fix k assume d: "distinct (map fst r)" and k: "k < length r" and lt: "fst (r ! k) < next_edge h"
    have "r ! k = (fst (r ! k), fst (snd (r ! k)), snd (snd (r ! k)))" by simp
    from move_edges_nth[OF d k this, of "next_node h1" 0 "net_edges h1"]
    show "net_edges h' (fst (r ! k)) =
             retarget (net_edges h (fst (r ! k))) (fst (snd (r ! k))) (snd (snd (r ! k)))
               (next_node h) k"
      by (simp add: h'_def n1 ed1[OF lt])
  qed
  have fx: "\<And>p. p < length (edges (net_nodes h x)) \<Longrightarrow> x < next_node h \<Longrightarrow>
              dangling_slot h1 x p"
    using assms unfolding h1_def
    by (auto simp: fresh_edges_def Let_def dangling_edges_def dangling_slot_def)
  have fy: "\<And>p. p < length (edges (net_nodes h y)) \<Longrightarrow> y < next_node h \<Longrightarrow>
              dangling_slot h1 y p"
    unfolding h1_def using fresh_edges_fresh[of p "fresh_edges x h" y for p]
    by (simp add: fresh_edges_simps)
  have lift: "\<And>n p. n < next_node h \<Longrightarrow> dangling_slot h1 n p \<Longrightarrow>
      edges (net_nodes h' n) ! p \<notin> fst ` set r \<Longrightarrow> dangling_slot h' n p"
    unfolding dangling_slot_def h'_def by (auto simp: n1 move_edges_other)
  have c8: "\<forall>n \<in> {x, y}. n < next_node h \<longrightarrow>
        (\<forall>p < length (edges (net_nodes h n)).
           edges (net_nodes h' n) ! p \<notin> fst ` set r \<longrightarrow> dangling_slot h' n p)"
    using fx fy lift by auto
  have c9: "\<forall>n \<in> {x, y}. n < next_node h \<longrightarrow>
        (\<forall>p < length (edges (net_nodes h n)). next_edge h \<le> edges (net_nodes h' n) ! p)"
    using assms by (auto simp: h'_def h1_def fresh_edges_def Let_def)
  show ?thesis using run c1 c2 c3 c4 c5 c6 c7 c8 c9 by blast
qed

lemma slot_ok_bound:
  "slot_ok h n p \<Longrightarrow> edges (net_nodes h n) ! p < next_edge h \<and> n < next_node h"
  by (auto simp: slot_ok_def dangling_slot_def bonded_def)

lemma slot_ok_has_end:
  "slot_ok h n p \<Longrightarrow>
   node1 (net_edges h (edges (net_nodes h n) ! p)) = n \<or>
   node2 (net_edges h (edges (net_nodes h n) ! p)) = Some n"
  using slot_ok_end[of h n p] by blast

lemma retarget_dangling:
  "node1 E = n \<Longrightarrow> axis1 E = p \<Longrightarrow> node2 E = None \<Longrightarrow>
   node1 (retarget E n p new j) = new \<and> axis1 (retarget E n p new j) = j \<and>
   node2 (retarget E n p new j) = None"
  by (simp add: retarget_def)

lemma retarget_bonded:
  assumes "n \<noteq> m"
    and "(node1 E = n \<and> axis1 E = p \<and> node2 E = Some m \<and> axis2 E = q) \<or>
         (node1 E = m \<and> axis1 E = q \<and> node2 E = Some n \<and> axis2 E = p)"
  shows "(node1 (retarget E n p new j) = new \<and> axis1 (retarget E n p new j) = j \<and>
          node2 (retarget E n p new j) = Some m \<and> axis2 (retarget E n p new j) = q) \<or>
         (node1 (retarget E n p new j) = m \<and> axis1 (retarget E n p new j) = q \<and>
          node2 (retarget E n p new j) = Some new \<and> axis2 (retarget E n p new j) = j)"
  using assms by (auto simp: retarget_def)

text \<open>One axis that moves to the new node.\<close>

lemma moved_slot:
  assumes new: "next_node h' = Suc new" and ne: "next_edge h \<le> next_edge h'"
    and n: "n < new" and j: "j < length (edges (net_nodes h' new))"
    and ed: "edges (net_nodes h' new) ! j = edges (net_nodes h n) ! p"
    and rec: "net_edges h' (edges (net_nodes h n) ! p) =
                retarget (net_edges h (edges (net_nodes h n) ! p)) n p new j"
    and sh: "shape (tensor (net_nodes h' new)) ! j = shape (tensor (net_nodes h n)) ! p"
    and others: "\<And>m. m < new \<Longrightarrow> m \<noteq> n \<Longrightarrow> m \<noteq> n' \<Longrightarrow> net_nodes h' m = net_nodes h m"
  shows "dangling_slot h n p \<Longrightarrow> dangling_slot h' new j"
    and "bonded h n p m q \<Longrightarrow> m \<noteq> n' \<Longrightarrow> next_node h = new \<Longrightarrow> bonded h' new j m q"
proof -
  assume d: "dangling_slot h n p"
  then have E: "node1 (net_edges h (edges (net_nodes h n) ! p)) = n"
       "axis1 (net_edges h (edges (net_nodes h n) ! p)) = p"
       "node2 (net_edges h (edges (net_nodes h n) ! p)) = None"
       "edges (net_nodes h n) ! p < next_edge h"
    by (simp_all add: dangling_slot_def)
  show "dangling_slot h' new j"
    unfolding dangling_slot_def ed rec
    using retarget_dangling[OF E(1,2,3), of new j] new j E(4) ne by simp
next
  assume b: "bonded h n p m q" and mn': "m \<noteq> n'" and nn: "next_node h = new"
  let ?e = "edges (net_nodes h n) ! p"
  have f: "m < new" "n \<noteq> m" "q < length (edges (net_nodes h m))"
      "?e = edges (net_nodes h m) ! q" "?e < next_edge h"
      "shape (tensor (net_nodes h n)) ! p = shape (tensor (net_nodes h m)) ! q"
    using b nn unfolding bonded_def by blast+
  have E: "(node1 (net_edges h ?e) = n \<and> axis1 (net_edges h ?e) = p \<and>
            node2 (net_edges h ?e) = Some m \<and> axis2 (net_edges h ?e) = q) \<or>
           (node1 (net_edges h ?e) = m \<and> axis1 (net_edges h ?e) = q \<and>
            node2 (net_edges h ?e) = Some n \<and> axis2 (net_edges h ?e) = p)"
    using b unfolding bonded_def by blast
  have same: "net_nodes h' m = net_nodes h m" using others[of m] f mn' by simp
  show "bonded h' new j m q"
    unfolding bonded_def ed rec same
    using retarget_bonded[OF f(2) E, of new j] new j f ne sh by auto
qed

lemma kept_disjoint:
  assumes x: "node_ok h x" and y: "node_ok h y" and xy: "x \<noteq> y"
    and sh: "set sh = {e \<in> set (edges (net_nodes h x)). joins h e x y}"
    and p: "p \<in> set (kept h x sh)" and q: "q \<in> set (kept h y sh)"
  shows "edges (net_nodes h x) ! p \<noteq> edges (net_nodes h y) ! q"
proof
  let ?ex = "edges (net_nodes h x)" and ?ey = "edges (net_nodes h y)"
  assume e: "?ex ! p = ?ey ! q"
  have pl: "p < length ?ex" "?ex ! p \<notin> set sh" using p by (simp_all add: kept_props)
  have ql: "q < length ?ey" using q by (simp add: kept_props)
  from slot_ok_end[OF node_ok_slot[OF x pl(1)]] slot_ok_end[OF node_ok_slot[OF y ql]] xy
  have "joins h (?ex ! p) x y" unfolding e[symmetric] joins_def by auto
  then have "?ex ! p \<in> set sh" using sh pl(1) by simp
  then show False using pl(2) by simp
qed

lemma kept_bonded_other:
  assumes x: "node_ok h x" and xy: "x \<noteq> y"
    and sh: "{e \<in> set (edges (net_nodes h x)). joins h e x y} \<subseteq> set sh"
    and p: "p \<in> set (kept h x sh)" and b: "bonded h x p m q"
  shows "m \<noteq> y"
proof
  assume "m = y"
  then have "joins h (edges (net_nodes h x) ! p) x y" using bonded_joins[OF b] by simp
  moreover have "p < length (edges (net_nodes h x))" "edges (net_nodes h x) ! p \<notin> set sh"
    using p by (simp_all add: kept_props)
  ultimately show False using sh nth_mem[of p "edges (net_nodes h x)"] by blast
qed

lemma kept_bonded_other_rev:
  assumes x: "node_ok h x" and y: "node_ok h y" and xy: "x \<noteq> y"
    and sh: "{e \<in> set (edges (net_nodes h x)). joins h e x y} \<subseteq> set sh"
    and p: "p \<in> set (kept h y sh)" and b: "bonded h y p m q"
  shows "m \<noteq> x"
proof
  assume mx: "m = x"
  from b have "edges (net_nodes h y) ! p = edges (net_nodes h x) ! q" "q < length (edges (net_nodes h x))"
    unfolding bonded_def mx by blast+
  moreover have "joins h (edges (net_nodes h y) ! p) x y"
    using bonded_joins[OF b] mx by (auto simp: joins_def)
  moreover have "edges (net_nodes h y) ! p \<notin> set sh" using p by (simp add: kept_props)
  ultimately show False using sh by (metis (mono_tags, lifting) mem_Collect_eq nth_mem subsetD)
qed

lemma nth_map_append_left:
  "j < length ks \<Longrightarrow> (map f ks @ ys) ! j = f (ks ! j)"
  by (simp add: nth_append)

lemma nth_map_append_right:
  "j < length ks \<Longrightarrow> (xs @ map f ks) ! (length xs + j) = f (ks ! j)"
  by (simp add: nth_append)


section \<open>The contraction of two nodes\<close>

lemma contract_pair_spec:
  assumes x: "node_ok h x" and y: "node_ok h y" and xy: "x \<noteq> y"
    and sh: "set sh = {e \<in> set (edges (net_nodes h x)). joins h e x y}"
  shows "\<exists>h'. contract_pair x y sh nm h = (Inr (next_node h), h') \<and>
           contracted h h' x y (kept h x sh) (kept h y sh) \<and>
           name (net_nodes h' (next_node h)) = nm \<and>
           tensor (net_nodes h' (next_node h)) =
             tensordot (tensor (net_nodes h x)) (tensor (net_nodes h y))
               (map (axis_at h x) sh) (map (axis_at h y) sh)"
proof -
  let ?ex = "edges (net_nodes h x)" and ?ey = "edges (net_nodes h y)"
  let ?new = "next_node h"
  define kx where "kx = kept h x sh"
  define ky where "ky = kept h y sh"
  define t where "t = tensordot (tensor (net_nodes h x)) (tensor (net_nodes h y))
               (map (axis_at h x) sh) (map (axis_at h y) sh)"
  define r where "r = remaining h x sh @ remaining h y sh"
  have r_eq: "r = map (\<lambda>p. (?ex ! p, x, p)) kx @ map (\<lambda>p. (?ey ! p, y, p)) ky"
    by (simp add: r_def remaining_kept kx_def ky_def)
  have fst_r: "map fst r = map ((!) ?ex) kx @ map ((!) ?ey) ky"
    by (simp add: r_eq o_def)
  have shx: "set sh \<subseteq> set ?ex" and shsub: "{e \<in> set ?ex. joins h e x y} \<subseteq> set sh"
    and shj: "set sh \<subseteq> {e \<in> set ?ex. joins h e x y}" using sh by auto
  have xl: "x < ?new" and yl: "y < ?new" using x y by (simp_all add: node_ok_def)
  have kxp: "\<And>p. p \<in> set kx \<Longrightarrow> p < length ?ex" and kyp: "\<And>p. p \<in> set ky \<Longrightarrow> p < length ?ey"
    by (simp_all add: kx_def ky_def kept_props)
  have dx: "distinct (map ((!) ?ex) kx)"
    using node_ok_distinct[OF x] kept_props(2)[of h x sh] kxp
    by (auto simp: distinct_map inj_on_def kx_def nth_eq_iff_index_eq)
  have dy: "distinct (map ((!) ?ey) ky)"
    using node_ok_distinct[OF y] kept_props(2)[of h y sh] kyp
    by (auto simp: distinct_map inj_on_def ky_def nth_eq_iff_index_eq)
  have D: "distinct (map fst r)"
    unfolding fst_r using dx dy kept_disjoint[OF x y xy sh]
    by (auto simp: kx_def ky_def)
  from replace_nodes_two[OF xy, of r t nm h] obtain h' where
    run: "replace_nodes [x, y] r t nm h = (Inr ?new, h')"
    and c1: "next_node h' = Suc ?new"
    and c2: "next_edge h' = next_edge h + length ?ex + length ?ey"
    and c3: "net_nodes h' ?new = \<lparr>name = nm, tensor = t, edges = map fst r\<rparr>"
    and c4': "\<forall>m. m \<noteq> x \<and> m \<noteq> y \<and> m \<noteq> ?new \<longrightarrow> net_nodes h' m = net_nodes h m"
    and c5': "\<forall>m. m \<noteq> ?new \<longrightarrow> name (net_nodes h' m) = name (net_nodes h m) \<and>
        tensor (net_nodes h' m) = tensor (net_nodes h m) \<and>
        length (edges (net_nodes h' m)) = length (edges (net_nodes h m))"
    and c6': "\<forall>e < next_edge h. e \<notin> fst ` set r \<longrightarrow> net_edges h' e = net_edges h e"
    and c7': "distinct (map fst r) \<longrightarrow> (\<forall>k < length r. fst (r ! k) < next_edge h \<longrightarrow>
           net_edges h' (fst (r ! k)) =
             retarget (net_edges h (fst (r ! k))) (fst (snd (r ! k))) (snd (snd (r ! k))) ?new k)"
    and c8': "\<forall>n \<in> {x, y}. n < next_node h \<longrightarrow>
        (\<forall>p < length (edges (net_nodes h n)).
           edges (net_nodes h' n) ! p \<notin> fst ` set r \<longrightarrow> dangling_slot h' n p)"
    and c9': "\<forall>n \<in> {x, y}. n < next_node h \<longrightarrow>
        (\<forall>p < length (edges (net_nodes h n)). next_edge h \<le> edges (net_nodes h' n) ! p)"
    by blast
  have c4: "\<And>m. m \<noteq> x \<Longrightarrow> m \<noteq> y \<Longrightarrow> m \<noteq> ?new \<Longrightarrow> net_nodes h' m = net_nodes h m"
    using c4' by simp
  have c5: "\<And>m. m \<noteq> ?new \<Longrightarrow> name (net_nodes h' m) = name (net_nodes h m) \<and>
        tensor (net_nodes h' m) = tensor (net_nodes h m) \<and>
        length (edges (net_nodes h' m)) = length (edges (net_nodes h m))"
    using c5' by simp
  have c6: "\<And>e. e < next_edge h \<Longrightarrow> e \<notin> fst ` set r \<Longrightarrow> net_edges h' e = net_edges h e"
    using c6' by simp
  have c7: "\<And>k. k < length r \<Longrightarrow> fst (r ! k) < next_edge h \<Longrightarrow>
           net_edges h' (fst (r ! k)) =
             retarget (net_edges h (fst (r ! k))) (fst (snd (r ! k))) (snd (snd (r ! k))) ?new k"
    using c7' D by simp
  have rlt: "\<And>e. e \<in> fst ` set r \<Longrightarrow> e < next_edge h"
  proof -
    fix e assume "e \<in> fst ` set r"
    then have "e \<in> set (map ((!) ?ex) kx) \<or> e \<in> set (map ((!) ?ey) ky)"
      using fst_r by (metis Un_iff set_append set_map)
    then show "e < next_edge h"
    proof
      assume "e \<in> set (map ((!) ?ex) kx)"
      then obtain p where "p \<in> set kx" "e = ?ex ! p" by auto
      then show ?thesis using slot_ok_bound[OF node_ok_slot[OF x kxp]] by simp
    next
      assume "e \<in> set (map ((!) ?ey) ky)"
      then obtain p where "p \<in> set ky" "e = ?ey ! p" by auto
      then show ?thesis using slot_ok_bound[OF node_ok_slot[OF y kyp]] by simp
    qed
  qed
  have rend: "\<And>e. e \<in> fst ` set r \<Longrightarrow>
       node1 (net_edges h e) \<in> {x, y} \<or> node2 (net_edges h e) \<in> {Some x, Some y}"
  proof -
    fix e assume "e \<in> fst ` set r"
    then have "e \<in> set (map ((!) ?ex) kx) \<or> e \<in> set (map ((!) ?ey) ky)"
      using fst_r by (metis Un_iff set_append set_map)
    then show "node1 (net_edges h e) \<in> {x, y} \<or> node2 (net_edges h e) \<in> {Some x, Some y}"
    proof
      assume "e \<in> set (map ((!) ?ex) kx)"
      then obtain p where "p \<in> set kx" "e = ?ex ! p" by auto
      then show ?thesis using slot_ok_has_end[OF node_ok_slot[OF x kxp]] by auto
    next
      assume "e \<in> set (map ((!) ?ey) ky)"
      then obtain p where "p \<in> set ky" "e = ?ey ! p" by auto
      then show ?thesis using slot_ok_has_end[OF node_ok_slot[OF y kyp]] by auto
    qed
  qed
  have c8: "\<And>n p. n = x \<or> n = y \<Longrightarrow> p < length (edges (net_nodes h n)) \<Longrightarrow> dangling_slot h' n p"
  proof -
    fix n p assume n: "n = x \<or> n = y" and p: "p < length (edges (net_nodes h n))"
    have nl: "n < next_node h" using n xl yl by auto
    have "next_edge h \<le> edges (net_nodes h' n) ! p" using c9' n nl p by blast
    then have "edges (net_nodes h' n) ! p \<notin> fst ` set r" using rlt by fastforce
    then show "dangling_slot h' n p" using c8' n nl p by blast
  qed
  have runc: "contract_pair x y sh nm h = (Inr ?new, h')"
    unfolding contract_pair_def using run by (simp add: r_def t_def)
  have ed_new: "edges (net_nodes h' ?new) = map ((!) ?ex) kx @ map ((!) ?ey) ky"
    by (simp add: c3 fst_r)
  have rkx: "rank (tensor (net_nodes h x)) = length ?ex" and rky: "rank (tensor (net_nodes h y)) = length ?ey"
    using x y by (simp_all add: node_ok_def rank_def)
  have sh_new: "shape (tensor (net_nodes h' ?new)) =
        map ((!) (shape (tensor (net_nodes h x)))) kx @ map ((!) (shape (tensor (net_nodes h y)))) ky"
    unfolding c3 t_def tensordot_def Let_def rkx rky
      free_axes_kept[OF x shx] free_axes_kept_other[OF x y xy shj] kx_def ky_def
    by simp
  have ne: "next_edge h \<le> next_edge h'" by (simp add: c2)
  text \<open>the axes of \<open>x\<close>\<close>
  have mx: "\<And>j. j < length kx \<Longrightarrow>
         (dangling_slot h x (kx ! j) \<longrightarrow> dangling_slot h' ?new j) \<and>
         (\<forall>m q. bonded h x (kx ! j) m q \<longrightarrow> bonded h' ?new j m q)"
  proof -
    fix j assume j: "j < length kx"
    have pk: "kx ! j \<in> set (kept h x sh)" using j by (simp add: kx_def)
    then have pl: "kx ! j < length ?ex" by (simp add: kept_props)
    have rj: "r ! j = (?ex ! (kx ! j), x, kx ! j)" using j by (simp add: r_eq nth_append)
    have jr: "j < length r" using j by (simp add: r_eq)
    have lt: "?ex ! (kx ! j) < next_edge h" using slot_ok_bound[OF node_ok_slot[OF x pl]] by simp
    have rec: "net_edges h' (?ex ! (kx ! j)) = retarget (net_edges h (?ex ! (kx ! j))) x (kx ! j) ?new j"
      using c7[OF jr] lt by (simp add: rj)
    have jl: "j < length (edges (net_nodes h' ?new))" using j by (simp add: ed_new)
    have ed: "edges (net_nodes h' ?new) ! j = ?ex ! (kx ! j)" using j by (simp add: ed_new nth_append)
    have shp: "shape (tensor (net_nodes h' ?new)) ! j = shape (tensor (net_nodes h x)) ! (kx ! j)"
      using j by (simp add: sh_new nth_append)
    note ms = moved_slot[OF c1 ne xl jl ed rec shp, of y]
    show "(dangling_slot h x (kx ! j) \<longrightarrow> dangling_slot h' ?new j) \<and>
         (\<forall>m q. bonded h x (kx ! j) m q \<longrightarrow> bonded h' ?new j m q)"
    proof (intro conjI impI allI)
      assume "dangling_slot h x (kx ! j)"
      then show "dangling_slot h' ?new j" using ms(1) c4 by simp
    next
      fix m q assume b: "bonded h x (kx ! j) m q"
      have "m \<noteq> y" by (rule kept_bonded_other[OF x xy shsub pk b])
      then show "bonded h' ?new j m q" using ms(2)[OF _ b] c4 by simp
    qed
  qed
  text \<open>the axes of \<open>y\<close>\<close>
  have my: "\<And>j. j < length ky \<Longrightarrow>
         (dangling_slot h y (ky ! j) \<longrightarrow> dangling_slot h' ?new (length kx + j)) \<and>
         (\<forall>m q. bonded h y (ky ! j) m q \<longrightarrow> bonded h' ?new (length kx + j) m q)"
  proof -
    fix j assume j: "j < length ky"
    let ?J = "length kx + j"
    have pk: "ky ! j \<in> set (kept h y sh)" using j by (simp add: ky_def)
    then have pl: "ky ! j < length ?ey" by (simp add: kept_props)
    have rj: "r ! ?J = (?ey ! (ky ! j), y, ky ! j)" using j by (simp add: r_eq nth_append)
    have jr: "?J < length r" using j by (simp add: r_eq)
    have lt: "?ey ! (ky ! j) < next_edge h" using slot_ok_bound[OF node_ok_slot[OF y pl]] by simp
    have rec: "net_edges h' (?ey ! (ky ! j)) = retarget (net_edges h (?ey ! (ky ! j))) y (ky ! j) ?new ?J"
      using c7[OF jr] lt by (simp add: rj)
    have jl: "?J < length (edges (net_nodes h' ?new))" using j by (simp add: ed_new)
    have ed: "edges (net_nodes h' ?new) ! ?J = ?ey ! (ky ! j)" using j by (simp add: ed_new nth_append)
    have shp: "shape (tensor (net_nodes h' ?new)) ! ?J = shape (tensor (net_nodes h y)) ! (ky ! j)"
      using j by (simp add: sh_new nth_append)
    note ms = moved_slot[OF c1 ne yl jl ed rec shp, of x]
    show "(dangling_slot h y (ky ! j) \<longrightarrow> dangling_slot h' ?new ?J) \<and>
         (\<forall>m q. bonded h y (ky ! j) m q \<longrightarrow> bonded h' ?new ?J m q)"
    proof (intro conjI impI allI)
      assume "dangling_slot h y (ky ! j)"
      then show "dangling_slot h' ?new ?J" using ms(1) c4 by simp
    next
      fix m q assume b: "bonded h y (ky ! j) m q"
      have "m \<noteq> x" by (rule kept_bonded_other_rev[OF x y xy shsub pk b])
      then show "bonded h' ?new ?J m q" using ms(2)[OF _ b] c4 by simp
    qed
  qed
  have od: "\<And>m q. m \<noteq> x \<Longrightarrow> m \<noteq> y \<Longrightarrow> dangling_slot h m q \<Longrightarrow> dangling_slot h' m q"
  proof -
    fix m q assume m: "m \<noteq> x" "m \<noteq> y" and d: "dangling_slot h m q"
    let ?e = "edges (net_nodes h m) ! q"
    have f: "m < ?new" "q < length (edges (net_nodes h m))" "?e < next_edge h"
      "node1 (net_edges h ?e) = m" "axis1 (net_edges h ?e) = q" "node2 (net_edges h ?e) = None"
      using d by (simp_all add: dangling_slot_def)
    have same: "net_nodes h' m = net_nodes h m" using c4 m f(1) by simp
    have "?e \<notin> fst ` set r" using rend[of ?e] f(4,6) m by auto
    then have "net_edges h' ?e = net_edges h ?e" using c6 f(3) by simp
    then show "dangling_slot h' m q" unfolding dangling_slot_def same using f c1 ne by simp
  qed
  have ob: "\<And>m q m' q'. m \<noteq> x \<Longrightarrow> m \<noteq> y \<Longrightarrow> m' \<noteq> x \<Longrightarrow> m' \<noteq> y \<Longrightarrow>
           bonded h m q m' q' \<Longrightarrow> bonded h' m q m' q'"
  proof -
    fix m q m' q' assume m: "m \<noteq> x" "m \<noteq> y" "m' \<noteq> x" "m' \<noteq> y" and b: "bonded h m q m' q'"
    let ?e = "edges (net_nodes h m) ! q"
    have f: "m < ?new" "m' < ?new" "?e < next_edge h" using b unfolding bonded_def by blast+
    have E: "node1 (net_edges h ?e) \<in> {m, m'}" "node2 (net_edges h ?e) \<in> {Some m, Some m'}"
      using b unfolding bonded_def by blast+
    have same: "net_nodes h' m = net_nodes h m" "net_nodes h' m' = net_nodes h m'"
      using c4 m f by simp_all
    have "?e \<notin> fst ` set r"
    proof
      assume "?e \<in> fst ` set r"
      from rend[OF this] E m show False by auto
    qed
    then have ee: "net_edges h' ?e = net_edges h ?e" using c6 f(3) by simp
    have "next_node h \<le> next_node h'" using c1 by simp
    then show "bonded h' m q m' q'" using b ne unfolding bonded_def same ee by auto
  qed
  have kx_ex: "\<And>p m q. bonded h x p m q \<Longrightarrow> m \<noteq> y \<Longrightarrow> \<exists>j < length kx. kx ! j = p"
  proof -
    fix p m q assume b: "bonded h x p m q" and my: "m \<noteq> y"
    have pl: "p < length ?ex" and mx': "x \<noteq> m" using b unfolding bonded_def by blast+
    have "\<not> joins h (?ex ! p) x y"
      using b my mx' unfolding bonded_def joins_def by auto
    then have "?ex ! p \<notin> set sh" using shj by auto
    then have "p \<in> set kx" using pl by (simp add: kx_def kept_props)
    then show "\<exists>j < length kx. kx ! j = p" by (simp add: in_set_conv_nth)
  qed
  have ky_ex: "\<And>p m q. bonded h y p m q \<Longrightarrow> m \<noteq> x \<Longrightarrow> \<exists>j < length ky. ky ! j = p"
  proof -
    fix p m q assume b: "bonded h y p m q" and my: "m \<noteq> x"
    have pl: "p < length ?ey" and mx': "y \<noteq> m" using b unfolding bonded_def by blast+
    have "\<not> joins h (?ey ! p) x y"
      using b my mx' unfolding bonded_def joins_def by auto
    then have "?ey ! p \<notin> set sh" using shj by auto
    then have "p \<in> set ky" using pl by (simp add: ky_def kept_props)
    then show "\<exists>j < length ky. ky ! j = p" by (simp add: in_set_conv_nth)
  qed
  have nok: "\<And>m. node_ok h m \<Longrightarrow> node_ok h' m"
  proof -
    fix m assume m: "node_ok h m"
    have ml: "m < ?new" using m by (simp add: node_ok_def)
    then have mn: "m \<noteq> ?new" by simp
    have len: "length (edges (net_nodes h' m)) = length (edges (net_nodes h m))"
      and ten: "tensor (net_nodes h' m) = tensor (net_nodes h m)" using c5[OF mn] by simp_all
    have rk: "length (shape (tensor (net_nodes h m))) = length (edges (net_nodes h m))"
      using m by (simp add: node_ok_def)
    have "\<And>p. p < length (edges (net_nodes h m)) \<Longrightarrow> slot_ok h' m p"
    proof -
      fix p assume p: "p < length (edges (net_nodes h m))"
      show "slot_ok h' m p"
      proof (cases "m = x \<or> m = y")
        case True
        then show ?thesis using c8[OF True p] by (simp add: slot_ok_def)
      next
        case False
        then have mxy: "m \<noteq> x" "m \<noteq> y" by simp_all
        from node_ok_slot[OF m p] show ?thesis unfolding slot_ok_def
        proof
          assume "dangling_slot h m p"
          then show "dangling_slot h' m p \<or> (\<exists>m' q. bonded h' m p m' q)" using od[OF mxy] by blast
        next
          assume "\<exists>m' q. bonded h m p m' q"
          then obtain m' q where b: "bonded h m p m' q" by blast
          consider "m' = x" | "m' = y" | "m' \<noteq> x" "m' \<noteq> y" by blast
          then have "\<exists>m'' q''. bonded h' m p m'' q''"
          proof cases
            case 1
            have b': "bonded h x q m p" using bonded_sym[OF b] 1 by simp
            from kx_ex[OF b' mxy(2)] obtain j where j: "j < length kx" "kx ! j = q" by blast
            from mx[OF j(1)] b' j(2) have "bonded h' ?new j m p" by simp
            then show ?thesis using bonded_sym by blast
          next
            case 2
            have b': "bonded h y q m p" using bonded_sym[OF b] 2 by simp
            from ky_ex[OF b' mxy(1)] obtain j where j: "j < length ky" "ky ! j = q" by blast
            from my[OF j(1)] b' j(2) have "bonded h' ?new (length kx + j) m p" by simp
            then show ?thesis using bonded_sym by blast
          next
            case 3
            then show ?thesis using ob[OF mxy 3 b] by blast
          qed
          then show "dangling_slot h' m p \<or> (\<exists>m' q. bonded h' m p m' q)" by blast
        qed
      qed
    qed
    then show "node_ok h' m" unfolding node_ok_def using ml c1 len ten rk by simp
  qed
  have nnew: "node_ok h' ?new"
  proof -
    have "\<And>j. j < length kx + length ky \<Longrightarrow> slot_ok h' ?new j"
    proof -
      fix j assume j: "j < length kx + length ky"
      show "slot_ok h' ?new j"
      proof (cases "j < length kx")
        case True
        have "slot_ok h x (kx ! j)" using node_ok_slot[OF x kxp] True by simp
        then show ?thesis using mx[OF True] unfolding slot_ok_def by blast
      next
        case False
        define i where "i = j - length kx"
        have i: "i < length ky" "j = length kx + i" using False j by (simp_all add: i_def)
        have "slot_ok h y (ky ! i)" using node_ok_slot[OF y kyp] i by simp
        then show ?thesis using my[OF i(1)] unfolding slot_ok_def i(2) by blast
      qed
    qed
    then show ?thesis unfolding node_ok_def using c1 by (simp add: ed_new sh_new)
  qed
  have "contracted h h' x y kx ky"
    unfolding contracted_def
    using c1 ne ed_new sh_new mx my c4 c5 od ob nok nnew c8 by simp
  moreover have "name (net_nodes h' ?new) = nm" "tensor (net_nodes h' ?new) = t" by (simp_all add: c3)
  ultimately show ?thesis using runc unfolding kx_def ky_def t_def by blast
qed


section \<open>One-site gates on a chain\<close>

lemma chain_at_node_ok:
  assumes c: "chain_at h ns pp lp rp" and i: "i < length ns"
  shows "node_ok h (ns ! i)"
proof -
  have l: "ns ! i < next_node h" using chain_at_phys[OF c i] by (simp add: dangling_slot_def)
  have "\<And>p. p < length (edges (net_nodes h (ns ! i))) \<Longrightarrow> slot_ok h (ns ! i) p"
  proof -
    fix p assume p: "p < length (edges (net_nodes h (ns ! i)))"
    from chain_at_slots[OF c i p] show "slot_ok h (ns ! i) p"
    proof (elim disjE conjE)
      assume "p = pp i"
      then show ?thesis using chain_at_phys[OF c i] by (simp add: slot_ok_def)
    next
      assume "0 < i" "p = lp i"
      then show ?thesis using bonded_sym[OF chain_at_bond_left[OF c _ i]] unfolding slot_ok_def by blast
    next
      assume "i + 1 < length ns" "p = rp i"
      then show ?thesis using chain_at_bond[OF c] unfolding slot_ok_def by blast
    qed
  qed
  then show ?thesis unfolding node_ok_def using l chain_at_rank[OF c i] by simp
qed

lemma dangling_not_bonded: "dangling_slot h n p \<Longrightarrow> \<not> bonded h n p m q"
  by (auto simp: dangling_slot_def bonded_def)

lemma node_ok_connect:
  assumes f: "net_frame h h' {(n, p), (m, q)}" and b: "bonded h' n p m q"
    and dn: "dangling_slot h n p" and dm: "dangling_slot h m q" and k: "node_ok h k"
  shows "node_ok h' k"
proof -
  have fr: "next_node h' = next_node h"
    "\<And>k. tensor (net_nodes h' k) = tensor (net_nodes h k)"
    "\<And>k. length (edges (net_nodes h' k)) = length (edges (net_nodes h k))"
    using f by (simp_all add: net_frame_def)
  have "\<And>r. r < length (edges (net_nodes h k)) \<Longrightarrow> slot_ok h' k r"
  proof -
    fix r assume r: "r < length (edges (net_nodes h k))"
    show "slot_ok h' k r"
    proof (cases "(k, r) \<in> {(n, p), (m, q)}")
      case True
      then show ?thesis using b bonded_sym[OF b] unfolding slot_ok_def by auto
    next
      case False
      from node_ok_slot[OF k r] show ?thesis unfolding slot_ok_def
      proof
        assume "dangling_slot h k r"
        then show "dangling_slot h' k r \<or> (\<exists>m q. bonded h' k r m q)"
          using dangling_slot_frame[OF f False] by blast
      next
        assume "\<exists>m' q'. bonded h k r m' q'"
        then obtain m' q' where b': "bonded h k r m' q'" by blast
        have "(m', q') \<notin> {(n, p), (m, q)}"
          using dangling_not_bonded[OF dn] dangling_not_bonded[OF dm] bonded_sym[OF b'] by auto
        from bonded_frame[OF f False this b']
        show "dangling_slot h' k r \<or> (\<exists>m q. bonded h' k r m q)" by blast
      qed
    qed
  qed
  then show ?thesis using k unfolding node_ok_def fr by simp
qed

lemma kept_single:
  assumes n: "node_ok h n" and p: "p0 < length (edges (net_nodes h n))"
  shows "kept h n [edges (net_nodes h n) ! p0] = [0..<p0] @ [Suc p0..<length (edges (net_nodes h n))]"
proof -
  let ?es = "edges (net_nodes h n)"
  have d: "distinct ?es" by (rule node_ok_distinct[OF n])
  have "kept h n [?es ! p0] = filter (\<lambda>p. p \<noteq> p0) [0..<length ?es]"
    unfolding kept_def using d p by (auto intro!: filter_cong simp: nth_eq_iff_index_eq)
  also have "[0..<length ?es] = [0..<p0] @ p0 # [Suc p0..<length ?es]"
    using p by (metis le_add1 less_imp_add_positive upt_add_eq_append upt_conv_Cons zero_le add.commute nat_less_le)
  also have "filter (\<lambda>p. p \<noteq> p0) \<dots> = [0..<p0] @ [Suc p0..<length ?es]"
    by (auto simp: filter_id_conv)
  finally show ?thesis .
qed

lemma axis_after_nth:
  assumes "p0 < k" "p < k" "p \<noteq> p0"
  shows "([0..<p0] @ [Suc p0..<k]) ! axis_after p0 p = p" and "axis_after p0 p < k - 1"
  using assms by (auto simp: axis_after_def nth_append)

lemma axis_after_inj:
  "p \<noteq> p0 \<Longrightarrow> q \<noteq> p0 \<Longrightarrow> p \<noteq> q \<Longrightarrow> axis_after p0 p \<noteq> axis_after p0 q"
  by (auto simp: axis_after_def)

lemma bonded_unique:
  "bonded h n p m q \<Longrightarrow> bonded h n p m' q' \<Longrightarrow> m = m' \<and> q = q'"
  unfolding bonded_def by auto

lemma one_site_store:
  assumes c: "chain_at h ns pp lp rp" and i: "i < length ns"
    and g: "node_ok h g" and gl: "length (edges (net_nodes h g)) = 2"
    and g0: "dangling_slot h g 0" and g1: "dangling_slot h g 1"
    and gn: "g \<notin> set ns"
    and dim: "shape (tensor (net_nodes h (ns ! i))) ! pp i = shape (tensor (net_nodes h g)) ! 0"
  shows "\<exists>h1 h2 kx.
     connect (edges (net_nodes h (ns ! i)) ! pp i) (edges (net_nodes h g) ! 0) h
        = (Inr (next_edge h), h1) \<and>
     next_node h1 = next_node h \<and>
     name (net_nodes h1 (ns ! i)) = name (net_nodes h (ns ! i)) \<and>
     contract (next_edge h) nm h1 = (Inr (next_node h), h2) \<and>
     kx = [0..<pp i] @ [Suc (pp i)..<length (edges (net_nodes h (ns ! i)))] \<and>
     contracted h1 h2 (ns ! i) g kx [1] \<and>
     net_frame h h1 {(ns ! i, pp i), (g, 0)} \<and>
     name (net_nodes h2 (next_node h)) = nm \<and>
     tensor (net_nodes h2 (next_node h)) =
       tensordot (tensor (net_nodes h (ns ! i))) (tensor (net_nodes h g)) [pp i] [0]"
proof -
  let ?s = "ns ! i"
  let ?k = "length (edges (net_nodes h ?s))"
  have sg: "?s \<noteq> g" using gn i by auto
  have ph: "dangling_slot h ?s (pp i)" by (rule chain_at_phys[OF c i])
  have pk: "pp i < ?k" using ph by (simp add: dangling_slot_def)
  from connect_spec[OF ph g0 sg dim] obtain h1 where
    con: "connect (edges (net_nodes h ?s) ! pp i) (edges (net_nodes h g) ! 0) h = (Inr (next_edge h), h1)"
    and b1: "bonded h1 ?s (pp i) g 0" and f: "net_frame h h1 {(?s, pp i), (g, 0)}"
    and o1: "node1 (net_edges h1 (next_edge h)) = ?s"
    and o2: "node2 (net_edges h1 (next_edge h)) = Some g"
    and ed: "edges (net_nodes h1 ?s) ! pp i = next_edge h" by blast
  have fr: "next_node h1 = next_node h"
    "\<And>k. name (net_nodes h1 k) = name (net_nodes h k)"
    "\<And>k. tensor (net_nodes h1 k) = tensor (net_nodes h k)"
    "\<And>k. length (edges (net_nodes h1 k)) = length (edges (net_nodes h k))"
    using f by (simp_all add: net_frame_def)
  have s1: "node_ok h1 ?s" by (rule node_ok_connect[OF f b1 ph g0 chain_at_node_ok[OF c i]])
  have gg1: "node_ok h1 g" by (rule node_ok_connect[OF f b1 ph g0 g])
  have edg: "edges (net_nodes h1 g) ! 0 = next_edge h" using b1 ed unfolding bonded_def by simp
  have cp: "contract (next_edge h) nm h1 = contract_pair ?s g [next_edge h] nm h1"
    unfolding contract_def using o1 o2 sg by simp
  have sh: "set [next_edge h] = {e \<in> set (edges (net_nodes h1 ?s)). joins h1 e ?s g}"
  proof (intro set_eqI iffI)
    fix e assume "e \<in> set [next_edge h]"
    then have e: "e = edges (net_nodes h1 ?s) ! pp i" using ed by simp
    have "pp i < length (edges (net_nodes h1 ?s))" using pk fr by simp
    then show "e \<in> {e \<in> set (edges (net_nodes h1 ?s)). joins h1 e ?s g}"
      using bonded_joins[OF b1] e by simp
  next
    fix e assume "e \<in> {e \<in> set (edges (net_nodes h1 ?s)). joins h1 e ?s g}"
    then obtain p where p: "p < length (edges (net_nodes h1 ?s))" "e = edges (net_nodes h1 ?s) ! p"
      and j: "joins h1 e ?s g" by (auto simp: in_set_conv_nth)
    from slot_joins_bonded[OF node_ok_slot[OF s1 p(1)] _ sg] j p(2)
    obtain q where bq: "bonded h1 ?s p g q" by blast
    have "p = pp i"
    proof (rule ccontr)
      assume np: "p \<noteq> pp i"
      have pl: "p < ?k" using p(1) fr by simp
      from chain_at_slots[OF c i pl] np
      consider "0 < i" "p = lp i" | "i + 1 < length ns" "p = rp i" by blast
      then obtain j q' where jj: "j < length ns" and bo: "bonded h ?s p (ns ! j) q'"
      proof cases
        case 1
        have "bonded h ?s p (ns ! (i - 1)) (rp (i - 1))"
          using bonded_sym[OF chain_at_bond_left[OF c 1(1) i]] 1(2) by simp
        then show ?thesis using that[of "i - 1"] i by simp
      next
        case 2
        have "bonded h ?s p (ns ! (i + 1)) (lp (i + 1))"
          using chain_at_bond[OF c 2(1)] 2(2) by simp
        then show ?thesis using that[of "i + 1"] 2(1) by simp
      qed
      have nj: "ns ! j \<noteq> g" using gn jj by auto
      have "(?s, p) \<notin> {(?s, pp i), (g, 0)}" using np sg by simp
      moreover have "(ns ! j, q') \<notin> {(?s, pp i), (g, 0)}"
        using nj dangling_not_bonded[OF ph] bonded_sym[OF bo] by auto
      ultimately have "bonded h1 ?s p (ns ! j) q'" using bonded_frame[OF f _ _ bo] by blast
      from bonded_unique[OF this bq] nj show False by simp
    qed
    then show "e \<in> set [next_edge h]" using p(2) ed by simp
  qed
  from contract_pair_spec[OF s1 gg1 sg sh, of nm] obtain h2 where
    run: "contract_pair ?s g [next_edge h] nm h1 = (Inr (next_node h1), h2)"
    and ct: "contracted h1 h2 ?s g (kept h1 ?s [next_edge h]) (kept h1 g [next_edge h])"
    and nm: "name (net_nodes h2 (next_node h1)) = nm"
    and tn: "tensor (net_nodes h2 (next_node h1)) =
             tensordot (tensor (net_nodes h1 ?s)) (tensor (net_nodes h1 g))
               (map (axis_at h1 ?s) [next_edge h]) (map (axis_at h1 g) [next_edge h])"
    by blast
  have k1: "kept h1 ?s [next_edge h] = [0..<pp i] @ [Suc (pp i)..<?k]"
    using kept_single[OF s1, of "pp i"] pk fr(4) ed by simp
  have k2: "kept h1 g [next_edge h] = [1]"
    using kept_single[OF gg1, of 0] gl fr(4) edg by (simp add: upt_rec)
  have a1: "axis_at h1 ?s (next_edge h) = pp i"
    using axis_at_slot[OF node_ok_slot[OF s1, of "pp i"]] pk fr(4) ed by simp
  have a2: "axis_at h1 g (next_edge h) = 0"
    using axis_at_slot[OF node_ok_slot[OF gg1, of 0]] gl fr(4) edg by simp
  show ?thesis
    using con fr(1,2) cp run ct nm tn k1 k2 a1 a2 f fr(3) by simp
qed

section \<open>The ceilings of a constructed chain\<close>

text \<open>
  Claim C4.  For every \<open>N \<ge> 2\<close>, \<open>d \<ge> 2\<close> and bond index \<open>0 \<le> i < N - 1\<close>, the
  constructor succeeds and \<open>get_max_bond_dimension_of i\<close> on the chain it returns is
  \<open>min (d ^ (i + 1)) (d ^ (N - i - 1))\<close>.
\<close>

theorem max_bond_dimension_is_min_of_powers:
  assumes "2 \<le> n" and "2 \<le> d" and "0 \<le> i" and "i < n - 1"
  shows "\<exists>m. MPS_init n d p h = Inr m \<and>
           get_max_bond_dimension_of m i = Inr (min (d ^ nat (i + 1)) (d ^ nat (n - i - 1)))"
proof -
  from MPS_init_spec[OF assms(1), of d p h] obtain m where
    m: "MPS_init n d p h = Inr m" "nqudits m = n"
       "max_bond_list n d = Inr (max_bond_dimensions m)" by blast
  from max_bond_list_ok[OF assms(1,2)] m(3) assms(3,4)
  have "py_get (max_bond_dimensions m) i = Inr (min (d ^ nat (i + 1)) (d ^ nat (n - i - 1)))"
    by auto
  then show ?thesis using m assms by (auto simp: get_max_bond_dimension_of_def)
qed

theorem max_bond_dimension_is_min_of_powers_witness:
  "\<exists>m. MPS_init 4 3 ''q'' empty_net = Inr m \<and> get_max_bond_dimension_of m 1 = Inr 9"
  using max_bond_dimension_is_min_of_powers[of 4 3 1 "''q''" empty_net] by simp

section \<open>Construction errors\<close>

lemma MPS_init_too_few:
  "n < 2 \<Longrightarrow> MPS_init n d p h = Inl (ValueError ''Number of qudits must be greater than 2.'')"
  by (simp add: MPS_init_def)

lemma MPS_init_succeeds: "2 \<le> n \<Longrightarrow> \<exists>m. MPS_init n d p h = Inr m \<and> qudit_dimension m = d"
  using MPS_init_spec[of n d p h] by blast

text \<open>
  Claim C6, as stated, fails: the constructor checks the number of sites only.  With two
  sites and qudit dimension 1 it returns a chain.
\<close>

theorem init_small_dimension_counterexample:
  "\<not> isl (MPS_init 2 1 ''q'' empty_net)"
  using MPS_init_succeeds[of 2 1 "''q''" empty_net] by auto

text \<open>
  Claim C6, amended.  Constructing an MPS with fewer than 2 sites fails with the
  constructor's \<open>ValueError\<close> (the spec's \<open>InvalidShape\<close>) and no chain is produced,
  whatever the qudit dimension; with at least 2 sites the constructor returns a chain
  for every qudit dimension, also below 2.
\<close>

theorem init_fails_iff_too_few_sites:
  "(n < 2 \<longrightarrow> MPS_init n d p h = Inl (ValueError ''Number of qudits must be greater than 2.'')) \<and>
   (2 \<le> n \<longrightarrow> (\<exists>m. MPS_init n d p h = Inr m \<and> qudit_dimension m = d))"
  using MPS_init_too_few[of n d p h] MPS_init_succeeds[of n d p h] by blast

theorem init_fails_iff_too_few_sites_witness:
  "MPS_init 1 2 ''q'' empty_net = Inl (ValueError ''Number of qudits must be greater than 2.'') \<and>
   (\<exists>m. MPS_init 2 0 ''q'' empty_net = Inr m \<and> qudit_dimension m = 0)"
  using init_fails_iff_too_few_sites[of 1 2 "''q''" empty_net]
        init_fails_iff_too_few_sites[of 2 0 "''q''" empty_net] by simp

section \<open>Index checks of the bond dimension query\<close>

text \<open>
  Claim C10.  On a valid chain of \<open>N\<close> sites, \<open>get_bond_dimension_of\<close> answers with its
  index error exactly for indices \<open>\<ge> N\<close>; the index \<open>N - 1\<close> passes that check and fails
  with Python's \<open>IndexError\<close> at the lookup of site \<open>N\<close>; and a negative index \<open>i \<ge> -N\<close>
  is not rejected: the two nodes are looked up by wrap-around, at \<open>N + i\<close> and at
  \<open>(N + i + 1) mod N\<close>.
\<close>

theorem bond_dimension_index_checks:
  assumes v: "is_valid m" and nq: "nqudits m = int (length (nodes m))"
  shows "(get_bond_dimension_of m i = Inl (ValueError ''Index should be less than nqudits.'')
            \<longleftrightarrow> nqudits m \<le> i) \<and>
         get_bond_dimension_of m (nqudits m - 1) = Inl IndexError \<and>
         (- nqudits m \<le> i \<and> i < 0 \<longrightarrow>
            get_bond_dimension_of m i =
              bond_between m (nodes m ! nat (nqudits m + i))
                             (nodes m ! nat ((nqudits m + i + 1) mod nqudits m)))"
proof (intro conjI impI)
  have N2: "2 \<le> length (nodes m)" using v by (simp add: is_valid_def)
  show "(get_bond_dimension_of m i = Inl (ValueError ''Index should be less than nqudits.''))
          = (nqudits m \<le> i)"
    using v by (auto simp: get_bond_dimension_of_def get_node_def py_get_def pop_def
                  split: sum.splits list.splits)
  show "get_bond_dimension_of m (nqudits m - 1) = Inl IndexError"
    using v N2 by (simp add: get_bond_dimension_of_def get_node_def py_get_def nq)
  show "get_bond_dimension_of m i =
          bond_between m (nodes m ! nat (nqudits m + i))
                         (nodes m ! nat ((nqudits m + i + 1) mod nqudits m))"
    if "- nqudits m \<le> i \<and> i < 0"
  proof (cases "i = - 1")
    case True
    then show ?thesis
      using v N2 by (auto simp: get_bond_dimension_of_def get_node_def py_get_def nq bond_between_def)
  next
    case False
    then have "(nqudits m + i + 1) mod nqudits m = nqudits m + i + 1"
      using that by (simp add: nq)
    then show ?thesis
      using v N2 that False
      by (simp add: get_bond_dimension_of_def get_node_def py_get_def nq bond_between_def
            algebra_simps)
  qed
qed

theorem bond_dimension_index_checks_witness:
  "is_valid three_qubits \<and> nqudits three_qubits = int (length (nodes three_qubits)) \<and>
   get_bond_dimension_of three_qubits 2 = Inl IndexError \<and>
   get_bond_dimension_of three_qubits 3 = Inl (ValueError ''Index should be less than nqudits.'') \<and>
   get_bond_dimension_of three_qubits (- 1) =
     bond_between three_qubits (nodes three_qubits ! 2) (nodes three_qubits ! 0) \<and>
   get_bond_dimension_of three_qubits (- 3) =
     bond_between three_qubits (nodes three_qubits ! 0) (nodes three_qubits ! 1)"
proof -
  note f = fresh_chain[OF _ three_qubits_def]
  have v: "is_valid three_qubits" using chain_ok_is_valid[OF f(2)] by simp
  have nq: "nqudits three_qubits = int (length (nodes three_qubits))" using f(3,4) by simp
  have n3: "nqudits three_qubits = 3" and l3: "length (nodes three_qubits) = 3"
    using f(3,4) by simp_all
  show ?thesis
    using bond_dimension_index_checks[OF v nq, of 3]
          bond_dimension_index_checks[OF v nq, of "- 1"]
          bond_dimension_index_checks[OF v nq, of "- 3"]
    by (simp add: v n3 l3)
qed

section \<open>Rejected two-site gate calls\<close>

text \<open>
  Claim C7.  On a valid chain, with a gate that has four dangling and no connected
  edges, the two-site gate application with adjacent in-bounds indices in reversed order
  (\<open>indexA = indexB + 1\<close>) returns the \<open>ValueError\<close> of the order check (the spec's
  \<open>InvalidIndexOrder\<close>); the state it leaves is the state it was called on, so no site
  tensor is modified and the indices are not swapped.
\<close>

theorem reversed_indices_rejected:
  assumes "is_valid m" and "in_range m j" and "in_range m (j + 1)"
    and "length (get_all_dangling (net m) gate) = 4"
    and "length (get_all_nondangling (net m) gate) = 0"
  shows "apply_two_qubit_gate svd gate (j + 1) j kw m =
           (Inl (ValueError ''IndexA must be less than IndexB.''), m)"
  by (rule two_qubit_reversed[OF assms])

theorem reversed_indices_rejected_witness:
  "is_valid (snd (on_net cnot_gate three_qubits)) \<and>
   in_range (snd (on_net cnot_gate three_qubits)) 1 \<and>
   in_range (snd (on_net cnot_gate three_qubits)) (1 + 1) \<and>
   length (get_all_dangling (net (snd (on_net cnot_gate three_qubits)))
             (next_node (net three_qubits))) = 4 \<and>
   length (get_all_nondangling (net (snd (on_net cnot_gate three_qubits)))
             (next_node (net three_qubits))) = 0 \<and>
   apply_two_qubit_gate trivial_svd (next_node (net three_qubits)) (1 + 1) 1 no_kwargs
       (snd (on_net cnot_gate three_qubits)) =
     (Inl (ValueError ''IndexA must be less than IndexB.''), snd (on_net cnot_gate three_qubits))"
proof -
  note g = three_qubits_cnot[OF surjective_pairing]
  have r: "in_range (snd (on_net cnot_gate three_qubits)) 1"
          "in_range (snd (on_net cnot_gate three_qubits)) (1 + 1)"
    using g(3) by (simp_all add: in_range_def)
  from reversed_indices_rejected[OF g(2) r g(4) g(5)] g r show ?thesis by blast
qed

section \<open>The dispatcher and non-adjacent sites\<close>

text \<open>
  Claim C2, as stated, fails: the dispatcher hands every two-qudit operation to the
  two-site gate application and never calls the swap router.  On three qubits, a CNOT on
  the sites 0 and 2 is refused.
\<close>

theorem dispatch_non_adjacent_counterexample:
  "fst (apply_mps_operation trivial_svd
          \<lparr>op_node = next_node (net three_qubits), qudit_indices = [0, 2]\<rparr> no_kwargs
          (snd (on_net cnot_gate three_qubits))) =
     Inl (ValueError ''Indices must be for adjacent tensors (must differ by one).'')"
proof -
  note g = three_qubits_cnot[OF surjective_pairing]
  have v: "op_is_valid (snd (on_net cnot_gate three_qubits))
             \<lparr>op_node = next_node (net three_qubits), qudit_indices = [0, 2]\<rparr>"
    using g(3,6) by (simp add: op_is_valid_def)
  from dispatch_non_adjacent[OF g(2) v, of 0 2] show ?thesis by simp
qed

text \<open>
  Claim C2, amended.  For every valid chain and every valid operation of arity 2 whose
  two target indices are in bounds, distinct and non-adjacent (\<open>|i - j| > 1\<close>), the
  dispatcher passes the operation to the two-site gate application, which fails with
  the \<open>ValueError\<close> of its adjacency check (the spec's \<open>NonAdjacentSites\<close>) and leaves the
  chain as it was; no swap is made.
\<close>

theorem dispatch_non_adjacent_fails:
  assumes "is_valid m" and "op_is_valid m op" and "qudit_indices op = [i, j]" and "1 < \<bar>i - j\<bar>"
  shows "apply_mps_operation svd op kw m =
           (Inl (ValueError ''Indices must be for adjacent tensors (must differ by one).''), m)"
  by (rule dispatch_non_adjacent[OF assms])

theorem dispatch_non_adjacent_fails_witness:
  "is_valid (snd (on_net cnot_gate three_qubits)) \<and>
   op_is_valid (snd (on_net cnot_gate three_qubits))
     \<lparr>op_node = next_node (net three_qubits), qudit_indices = [2, 0]\<rparr> \<and>
   apply_mps_operation trivial_svd
       \<lparr>op_node = next_node (net three_qubits), qudit_indices = [2, 0]\<rparr> no_kwargs
       (snd (on_net cnot_gate three_qubits)) =
     (Inl (ValueError ''Indices must be for adjacent tensors (must differ by one).''),
      snd (on_net cnot_gate three_qubits))"
proof -
  note g = three_qubits_cnot[OF surjective_pairing]
  have v: "op_is_valid (snd (on_net cnot_gate three_qubits))
             \<lparr>op_node = next_node (net three_qubits), qudit_indices = [2, 0]\<rparr>"
    using g(3,6) by (simp add: op_is_valid_def)
  from dispatch_non_adjacent_fails[OF g(2) v, of 2 0] g(2) v show ?thesis by simp
qed

end
